theory Spec2Isabelle
  imports Main
begin

section \<open>JavaScript values\<close>

text \<open>
  The library is generic in the type \<open>T\<close> of the values it stores, and two of its
  decisions depend on what JavaScript does with a value: \<open>local() !== cache()\<close> (strict
  inequality) and \<open>!!options?.initial\<close> (truthiness). The values are therefore modelled by
  a datatype on which both are defined as JavaScript defines them. Numbers are the
  integers and \<open>NaN\<close>; objects and functions are references. What a function does when it
  is called is given where the code calls one, see \<open>thrown\<close> and \<open>setarg\<close>.
\<close>

datatype jsval = Undefined | Null | Bool bool | Num int | NaN | Str string | Obj nat | Fun nat


text \<open>\<open>a === b\<close>: equal values of the same type, except that \<open>NaN\<close> equals nothing.\<close>

definition strict_eq :: "jsval \<Rightarrow> jsval \<Rightarrow> bool" where
  "strict_eq a b = (a \<noteq> NaN \<and> a = b)"

text \<open>\<open>!!v\<close>: the falsy values are \<open>undefined\<close>, \<open>null\<close>, \<open>false\<close>, \<open>0\<close>, \<open>NaN\<close> and \<open>""\<close>.\<close>

fun truthy :: "jsval \<Rightarrow> bool" where
  "truthy Undefined = False"
| "truthy Null = False"
| "truthy (Bool b) = b"
| "truthy (Num n) = (n \<noteq> 0)"
| "truthy NaN = False"
| "truthy (Str s) = (s \<noteq> [])"
| "truthy (Obj r) = True"
| "truthy (Fun f) = True"

section \<open>The reactive runtime\<close>

text \<open>
  The runtime (solid-js) is a collaborator of the library. What the library relies on is
  modelled here: state cells with equality-gated change notification, and \<open>batch\<close>, which
  coalesces the writes made inside it into one notification pass.

  A component's state is its cells (the signals it created), its plain closure variables,
  the batch nesting depth, whether a write inside the running batch changed a cell, and the
  notification passes so far, newest first: each pass records the cells as the observers
  see them.
\<close>

record ('c, 'v) rt =
  cells :: 'c
  vars :: 'v
  depth :: nat
  dirty :: bool
  passes :: "'c list"

text \<open>
  A signal write. \<open>same\<close> is the signal's comparator applied to the old and the new value:
  an equal value is dropped. Otherwise the cell is updated and the observers are notified,
  at once outside a batch, at the end of the batch inside one.
\<close>

definition writeSignal :: "bool \<Rightarrow> ('c \<Rightarrow> 'c) \<Rightarrow> ('c, 'v) rt \<Rightarrow> ('c, 'v) rt" where
  "writeSignal same upd r =
     (if same then r
      else (let r' = r\<lparr>cells := upd (cells r)\<rparr>
            in if depth r' = 0 then r'\<lparr>passes := cells r' # passes r'\<rparr>
               else r'\<lparr>dirty := True\<rparr>))"

definition batch :: "(('c, 'v) rt \<Rightarrow> ('c, 'v) rt) \<Rightarrow> ('c, 'v) rt \<Rightarrow> ('c, 'v) rt" where
  "batch fn r =
     (let r1 = fn (r\<lparr>depth := Suc (depth r)\<rparr>);
          r2 = r1\<lparr>depth := depth r1 - 1\<rparr>
      in if depth r2 = 0 \<and> dirty r2 then r2\<lparr>dirty := False, passes := cells r2 # passes r2\<rparr>
         else r2)"

text \<open>
  A statement that can raise returns the state it leaves and the value it raised, if any:
  what it did before it raised stays done.

  \<open>batch_raising\<close> is \<open>batch\<close> for a body that can raise. The runtime's own update cycle,
  in which it reruns the computations whose signals changed, coalesces the writes in the
  same way. When the body raises, the cycle is abandoned: the notifications it had queued
  are dropped and the value is raised further.
\<close>

definition batch_raising ::
  "(('c, 'v) rt \<Rightarrow> ('c, 'v) rt \<times> 'e option) \<Rightarrow> ('c, 'v) rt \<Rightarrow> ('c, 'v) rt \<times> 'e option" where
  "batch_raising fn r =
     (case fn (r\<lparr>depth := Suc (depth r)\<rparr>) of
        (r1, None) \<Rightarrow>
          (let r2 = r1\<lparr>depth := depth r1 - 1\<rparr>
           in if depth r2 = 0 \<and> dirty r2 then r2\<lparr>dirty := False, passes := cells r2 # passes r2\<rparr>
              else r2,
           None)
      | (r1, Some e) \<Rightarrow>
          (let r2 = r1\<lparr>depth := depth r1 - 1\<rparr>
           in if depth r2 = 0 then r2\<lparr>dirty := False\<rparr> else r2,
           Some e))"

text \<open>\<open>try { body } catch (e) { handler }\<close>; the handler can raise in its turn.\<close>

definition try_catch ::
  "('s \<Rightarrow> 's \<times> 't option) \<Rightarrow> ('t \<Rightarrow> 's \<Rightarrow> 's \<times> 'e option) \<Rightarrow> 's \<Rightarrow> 's \<times> 'e option" where
  "try_catch body handler s =
     (case body s of (s', None) \<Rightarrow> (s', None) | (s', Some e) \<Rightarrow> handler e s')"

section \<open>createFetched\<close>

datatype FetchedState = Unresolved | Pending | Ready | Refreshing | Errored

text \<open>
  The signals of \<open>createFetched\<close> (\<open>error\<close>, \<open>latest\<close>, \<open>state\<close>) and the one of the
  \<open>createSpool\<close> it calls (\<open>spool\<close>, which is the accessor \<open>fetched\<close> returned to the caller).
\<close>

record fcells =
  error :: jsval
  latest :: jsval
  state :: FetchedState
  spool :: jsval

text \<open>
  The closure variables. Every execution of the \<open>createComputed\<close> body declares its own
  \<open>invalided\<close>; \<open>invalided\<close> here lists them in the order of the executions, so that
  execution \<open>k\<close> and the \<open>update\<close> callback it handed to the winch own entry \<open>k\<close>.
  \<open>init\<close> is \<open>createSpool\<close>'s variable of the late mode: true while the first read is awaited.
\<close>

record fvars =
  hasLatest :: bool
  invalided :: "bool list"
  init :: bool

type_synonym fstate = "(fcells, fvars) rt"

text \<open>
  What a winch throws: a value that is not a function, or function \<open>Fun f\<close> together with
  what it does when it is called with one argument: it raises (\<open>Inl\<close>) or returns (\<open>Inr\<close>).
\<close>

datatype thrown = Val jsval | Fn nat "jsval \<Rightarrow> jsval + jsval"

fun thrown_value :: "thrown \<Rightarrow> jsval" where
  "thrown_value (Val v) = v"
| "thrown_value (Fn f call) = Fun f"

definition storeError :: "jsval \<Rightarrow> fstate \<Rightarrow> fstate" where
  "storeError v s = writeSignal (strict_eq (error (cells s)) v) (\<lambda>c. c\<lparr>error := v\<rparr>) s"

text \<open>
  \<open>setError(error)\<close> passes the thrown value to the setter as it is. A signal's setter
  calls a function argument with the previous value and stores what it returns; if the
  call raises, nothing is stored and the value is raised out of the setter.
\<close>

definition setError :: "thrown \<Rightarrow> fstate \<Rightarrow> fstate \<times> jsval option" where
  "setError t s =
     (case t of
        Val v \<Rightarrow> (storeError v s, None)
      | Fn f call \<Rightarrow>
          (case call (error (cells s)) of
             Inl e \<Rightarrow> (s, Some e)
           | Inr v \<Rightarrow> (storeError v s, None)))"

definition setLatest :: "jsval \<Rightarrow> fstate \<Rightarrow> fstate" where
  "setLatest v s = writeSignal (strict_eq (latest (cells s)) v) (\<lambda>c. c\<lparr>latest := v\<rparr>) s"

definition setState :: "FetchedState \<Rightarrow> fstate \<Rightarrow> fstate" where
  "setState v s = writeSignal (state (cells s) = v) (\<lambda>c. c\<lparr>state := v\<rparr>) s"

definition setSpool :: "jsval \<Rightarrow> fstate \<Rightarrow> fstate" where
  "setSpool v s = writeSignal (strict_eq (spool (cells s)) v) (\<lambda>c. c\<lparr>spool := v\<rparr>) s"

text \<open>\<open>createSpool\<close> hands \<open>(x) => setSpool(() => x)\<close> to its winch.\<close>

definition update :: "jsval \<Rightarrow> fstate \<Rightarrow> fstate" where
  "update x s = setSpool x s"

text \<open>
  The callback that execution \<open>k\<close> passes to the user's winch:
  \<open>(x) => { if (invalided) return; batch(() => { setState("ready"); setLatest(() => x);
  hasLatest = true; update(x); }); }\<close>. No callback exists for an execution that never ran.
\<close>

definition commit :: "nat \<Rightarrow> jsval \<Rightarrow> fstate \<Rightarrow> fstate" where
  "commit k x s =
     (if \<not> k < length (invalided (vars s)) then s
      else if invalided (vars s) ! k then s
      else batch (\<lambda>s. let s1 = setState Ready s;
                          s2 = setLatest x s1;
                          s3 = s2\<lparr>vars := (vars s2)\<lparr>hasLatest := True\<rparr>\<rparr>
                      in update x s3) s)"

text \<open>
  The cleanup registered by the latest execution:
  \<open>onCleanup(() => { invalided = true; update(undefined); })\<close>. The runtime calls it before
  the computation reruns and when its owner is disposed.
\<close>

definition cleanup :: "fstate \<Rightarrow> fstate" where
  "cleanup s =
     (let inv = invalided (vars s)
      in if inv = [] then s
         else update Undefined (s\<lparr>vars := (vars s)\<lparr>invalided := inv[length inv - 1 := True]\<rparr>\<rparr>))"

text \<open>
  What the user's winch does before it returns: the values it passes to \<open>update\<close> while it
  runs, in order, and the value it throws, if it throws. Calls of \<open>update\<close> made later (from
  a promise continuation, a timer) are events of their own, see \<open>fstep\<close>.
\<close>

type_synonym winch = "jsval list \<times> thrown option"

definition call_winch :: "winch \<Rightarrow> nat \<Rightarrow> fstate \<Rightarrow> fstate \<times> thrown option" where
  "call_winch w k s = (foldl (\<lambda>s x. commit k x s) s (fst w), snd w)"

text \<open>
  The catch clause: \<open>catch (error) { batch(() => { setState("errored"); setError(error); }); }\<close>.
\<close>

definition on_error :: "thrown \<Rightarrow> fstate \<Rightarrow> fstate \<times> jsval option" where
  "on_error e s = batch_raising (\<lambda>s. setError e (setState Errored s)) s"

text \<open>
  One execution of the function given to \<open>createComputed\<close>, at the depth of its caller. The
  second component is the value that escapes from it, if any.
\<close>

definition computed :: "winch \<Rightarrow> fstate \<Rightarrow> fstate \<times> jsval option" where
  "computed w s =
     (let k = length (invalided (vars s));
          s1 = s\<lparr>vars := (vars s)\<lparr>invalided := invalided (vars s) @ [False]\<rparr>\<rparr>;
          s2 = setState (if hasLatest (vars s1) then Refreshing else Pending) s1
      in try_catch (call_winch w k) on_error s2)"

text \<open>
  The runtime reruns the computation, inside its update cycle: the cleanups of the previous
  execution first, then the body.
\<close>

definition run :: "winch \<Rightarrow> fstate \<Rightarrow> fstate \<times> jsval option" where
  "run w s = batch_raising (\<lambda>s. computed w (cleanup s)) s"

text \<open>
  \<open>createFetched(winch, options)\<close>: \<open>initial\<close> is \<open>options?.initial\<close> (\<open>Undefined\<close> when
  absent), \<open>late\<close> is \<open>options?.late\<close>. Unless late, the winch is wound at once: the
  computation is created and executed for the first time, where \<open>createFetched\<close> is called.
  A value that escapes from this execution is raised by \<open>createFetched\<close>.
\<close>

definition createFetched :: "winch \<Rightarrow> jsval \<Rightarrow> bool \<Rightarrow> fstate \<times> jsval option" where
  "createFetched w initial late =
     (let s0 = \<lparr>cells = \<lparr>error = Undefined, latest = initial, state = Unresolved, spool = initial\<rparr>,
                vars = \<lparr>hasLatest = False, invalided = [], init = late\<rparr>,
                depth = 0, dirty = False, passes = []\<rparr>
      in if late then (s0, None) else computed w s0)"

text \<open>
  The accessor \<open>fetched\<close>: in late mode the first read winds the winch
  (\<open>init?.(); return spool()\<close>, where \<open>init\<close> is
  \<open>() => { init = undefined; runWithOwner(owner, wind); }\<close>), \<open>w\<close> being what the winch does
  then; \<open>runWithOwner\<close> runs its argument inside an update cycle. The read returns the
  spool's value (\<open>Inr\<close>), unless a value escapes from the first execution (\<open>Inl\<close>).
\<close>

definition fetched :: "winch \<Rightarrow> fstate \<Rightarrow> fstate \<times> (jsval + jsval)" where
  "fetched w s =
     (if init (vars s)
      then (case batch_raising (computed w) (s\<lparr>vars := (vars s)\<lparr>init := False\<rparr>\<rparr>) of
              (s', None) \<Rightarrow> (s', Inr (spool (cells s')))
            | (s', Some e) \<Rightarrow> (s', Inl e))
      else (s, Inr (spool (cells s))))"

text \<open>
  What can happen to a fetched signal: the runtime reruns the computation (a signal the
  winch read has changed), a callback handed out by execution \<open>k\<close> is called later, the
  owner is disposed, the accessor is read.
\<close>

datatype fevent = Rerun winch | Commit nat jsval | Dispose | Read winch

fun fstep :: "fevent \<Rightarrow> fstate \<Rightarrow> fstate" where
  "fstep (Rerun w) s = fst (run w s)"
| "fstep (Commit k x) s = commit k x s"
| "fstep Dispose s = cleanup s"
| "fstep (Read w) s = fst (fetched w s)"

definition fexec :: "fevent list \<Rightarrow> fstate \<Rightarrow> fstate" where
  "fexec es s = foldl (\<lambda>s e. fstep e s) s es"

text \<open>
  Execution \<open>k\<close> has been superseded: its cleanup has run. An event is accepted when it makes
  a live callback write: a late call of a callback that is not superseded, or an execution
  whose winch calls its callback while it runs.
\<close>

definition stale :: "nat \<Rightarrow> fstate \<Rightarrow> bool" where
  "stale k s = (k < length (invalided (vars s)) \<and> invalided (vars s) ! k)"

fun accepted :: "fevent \<Rightarrow> fstate \<Rightarrow> bool" where
  "accepted (Rerun w) s = (fst w \<noteq> [])"
| "accepted (Commit k x) s = (k < length (invalided (vars s)) \<and> \<not> stale k s)"
| "accepted Dispose s = False"
| "accepted (Read w) s = (init (vars s) \<and> fst w \<noteq> [])"

fun quiet :: "fevent list \<Rightarrow> fstate \<Rightarrow> bool" where
  "quiet [] s = True"
| "quiet (e # es) s = (\<not> accepted e s \<and> quiet es (fstep e s))"

text \<open>Outside every batch, with no notification owed.\<close>

definition settled :: "('c, 'v) rt \<Rightarrow> bool" where
  "settled r = (depth r = 0 \<and> \<not> dirty r)"

text \<open>The same cells and closure variables, whatever the depth and the notifications.\<close>

definition agree :: "('c, 'v) rt \<Rightarrow> ('c, 'v) rt \<Rightarrow> bool" where
  "agree s t = (cells s = cells t \<and> vars s = vars t)"

section \<open>quantum\<close>

text \<open>
  The closure variables of one quantum accessor (\<open>counter\<close>, \<open>dispose\<close>), what the runtime
  holds for it, and the rest of the program's state, \<open>world\<close>, on which \<open>track\<close> and the
  disposal function it returns act. \<open>microtasks\<close> counts the callbacks that \<open>uncount\<close> has
  queued with \<open>queueMicrotask\<close> and that have not run yet; \<open>registered\<close> lists the
  computations on which \<open>uncount\<close> is registered with \<open>onCleanup\<close>, one entry per registration.
\<close>

record 'w qstate =
  counter :: int
  dispose :: "('w \<Rightarrow> 'w) option"
  microtasks :: nat
  registered :: "nat list"
  world :: 'w

text \<open>\<open>track: () => () => void\<close> returns the disposal function and leaves a new world.\<close>

type_synonym 'w track = "'w \<Rightarrow> ('w \<Rightarrow> 'w) \<times> 'w"

definition count :: "'w track \<Rightarrow> 'w qstate \<Rightarrow> 'w qstate" where
  "count track q =
     (let q1 = (if counter q = 0
                then (case track (world q) of (d, w) \<Rightarrow> q\<lparr>dispose := Some d, world := w\<rparr>)
                else q)
      in q1\<lparr>counter := counter q1 + 1\<rparr>)"

text \<open>
  The callback that \<open>uncount\<close> queues:
  \<open>() => { counter--; if (counter === 0) { dispose?.(); dispose = undefined; } }\<close>.
\<close>

definition uncounted :: "'w qstate \<Rightarrow> 'w qstate" where
  "uncounted q =
     (let q1 = q\<lparr>counter := counter q - 1\<rparr>
      in if counter q1 = 0
         then (case dispose q1 of None \<Rightarrow> q1 | Some d \<Rightarrow> q1\<lparr>world := d (world q1)\<rparr>)\<lparr>dispose := None\<rparr>
         else q1)"

definition uncount :: "'w qstate \<Rightarrow> 'w qstate" where
  "uncount q = q\<lparr>microtasks := Suc (microtasks q)\<rparr>"

definition onCleanup :: "nat \<Rightarrow> 'w qstate \<Rightarrow> 'w qstate" where
  "onCleanup l q = q\<lparr>registered := registered q @ [l]\<rparr>"

text \<open>
  The accessor that \<open>quantum(source, track)\<close> returns. \<open>listener\<close> is \<open>getListener()\<close>: the
  computation that is tracking its reads, if there is one.
\<close>

definition quantum :: "('w \<Rightarrow> 'a) \<Rightarrow> 'w track \<Rightarrow> nat option \<Rightarrow> 'w qstate \<Rightarrow> 'w qstate \<times> 'a" where
  "quantum source track listener q =
     (let q' = (case listener of None \<Rightarrow> q | Some l \<Rightarrow> onCleanup l (count track q))
      in (q', source (world q')))"

text \<open>
  The runtime's part. When computation \<open>l\<close> reruns or is disposed, every cleanup registered
  on it is called once and forgotten. After the running synchronous code has returned, the
  queued microtasks run.
\<close>

definition cleanups :: "nat \<Rightarrow> 'w qstate \<Rightarrow> 'w qstate" where
  "cleanups l q =
     (uncount ^^ length (filter (\<lambda>x. x = l) (registered q)))
       (q\<lparr>registered := filter (\<lambda>x. x \<noteq> l) (registered q)\<rparr>)"

definition microtask :: "'w qstate \<Rightarrow> 'w qstate" where
  "microtask q = (if microtasks q = 0 then q else uncounted (q\<lparr>microtasks := microtasks q - 1\<rparr>))"

definition drain :: "'w qstate \<Rightarrow> 'w qstate" where
  "drain q = (microtask ^^ microtasks q) q"

datatype qevent = QRead "nat option" | QCleanup nat | QMicrotask

fun qstep :: "('w \<Rightarrow> 'a) \<Rightarrow> 'w track \<Rightarrow> qevent \<Rightarrow> 'w qstate \<Rightarrow> 'w qstate" where
  "qstep source track (QRead listener) q = fst (quantum source track listener q)"
| "qstep source track (QCleanup l) q = cleanups l q"
| "qstep source track QMicrotask q = microtask q"

definition qexec :: "('w \<Rightarrow> 'a) \<Rightarrow> 'w track \<Rightarrow> qevent list \<Rightarrow> 'w qstate \<Rightarrow> 'w qstate" where
  "qexec source track es q = foldl (\<lambda>q e. qstep source track e q) q es"

definition quantum_init :: "'w \<Rightarrow> 'w qstate" where
  "quantum_init w = \<lparr>counter = 0, dispose = None, microtasks = 0, registered = [], world = w\<rparr>"

text \<open>
  To count the calls, the world of a demand counter on its own is the log of the calls of
  \<open>track\<close> and of the disposal functions it returned, and \<open>track\<close> does nothing but log.
\<close>

datatype call = Activate | Deactivate

definition logged :: "call list track" where
  "logged w = (\<lambda>w. w @ [Deactivate], w @ [Activate])"

definition activations :: "call list \<Rightarrow> nat" where
  "activations w = length (filter (\<lambda>c. c = Activate) w)"

definition deactivations :: "call list \<Rightarrow> nat" where
  "deactivations w = length (filter (\<lambda>c. c = Deactivate) w)"

text \<open>A synchronous pass: reads and cleanups, no microtask in between.\<close>

definition sync_pass :: "qevent list \<Rightarrow> bool" where
  "sync_pass es = (QMicrotask \<notin> set es)"

text \<open>
  What holds of a demand counter between events: the counter is the number of decrements
  still to come (queued, or registered as a cleanup), a disposal function is held exactly
  while the counter is positive, and exactly then one activation is not yet undone.
\<close>

definition qinv :: "call list qstate \<Rightarrow> bool" where
  "qinv q = (counter q = int (microtasks q + length (registered q))
           \<and> dispose q = (if counter q = 0 then None else Some (\<lambda>w. w @ [Deactivate]))
           \<and> activations (world q) = deactivations (world q) + (if counter q = 0 then 0 else 1))"

section \<open>createSubscription\<close>

text \<open>
  The signals \<open>local\<close>, \<open>cache\<close>, \<open>subscribed\<close>, and the memo
  \<open>detached = createMemo(() => local() !== cache())\<close>: the runtime keeps the memo's last
  value in a cell and evaluates the function again whenever a signal it read changes.
\<close>

record scells =
  local :: jsval
  cache :: jsval
  subscribed :: bool
  detached :: bool

text \<open>
  The closure variable \<open>hasLocal\<close>, and what the caller's handler has been asked to do:
  \<open>sent\<close> lists the arguments of the calls of \<open>handler.set\<close> (the remote sink), \<open>subs\<close>
  counts the calls of \<open>handler.sub\<close> and \<open>unsubs\<close> those of the functions it returned.
\<close>

record svars =
  hasLocal :: bool
  sent :: "jsval list"
  subs :: nat
  unsubs :: nat

type_synonym sstate = "(scells, svars) rt"

definition memo :: "scells \<Rightarrow> scells" where
  "memo c = c\<lparr>detached := \<not> strict_eq (local c) (cache c)\<rparr>"

definition setLocal :: "jsval \<Rightarrow> sstate \<Rightarrow> sstate" where
  "setLocal v s = writeSignal (strict_eq (local (cells s)) v) (\<lambda>c. memo (c\<lparr>local := v\<rparr>)) s"

definition setCache :: "jsval \<Rightarrow> sstate \<Rightarrow> sstate" where
  "setCache v s = writeSignal (strict_eq (cache (cells s)) v) (\<lambda>c. memo (c\<lparr>cache := v\<rparr>)) s"

definition setSubscribed :: "bool \<Rightarrow> sstate \<Rightarrow> sstate" where
  "setSubscribed b s = writeSignal (subscribed (cells s) = b) (\<lambda>c. c\<lparr>subscribed := b\<rparr>) s"

text \<open>\<open>handler.reconcile\<close> is optional: \<open>(remote, local, cache) => reconciled\<close>.\<close>

type_synonym reconcile = "(jsval \<Rightarrow> jsval \<Rightarrow> jsval \<Rightarrow> jsval) option"

definition reconciled :: "reconcile \<Rightarrow> jsval \<Rightarrow> sstate \<Rightarrow> jsval" where
  "reconciled rc remote s =
     (case rc of Some f \<Rightarrow> f remote (local (cells s)) (cache (cells s)) | None \<Rightarrow> remote)"

definition updateFromRemote :: "reconcile \<Rightarrow> jsval \<Rightarrow> sstate \<Rightarrow> sstate" where
  "updateFromRemote rc remote s =
     batch (\<lambda>s. let r = reconciled rc remote s;
                    s1 = s\<lparr>vars := (vars s)\<lparr>hasLocal := True\<rparr>\<rparr>;
                    s2 = setLocal r s1
                in setCache r s2) s"

text \<open>
  The setter half of the atom: \<open>(...args) => { hasLocal = true; return setLocal(...args); }\<close>.
  A signal setter takes a value that is not a function (\<open>Plain\<close>), or a function, given by
  what it returns for the previous value (\<open>Mapper\<close>).
\<close>

datatype setarg = Plain jsval | Mapper "jsval \<Rightarrow> jsval"

definition setter :: "setarg \<Rightarrow> sstate \<Rightarrow> sstate" where
  "setter a s =
     (let s1 = s\<lparr>vars := (vars s)\<lparr>hasLocal := True\<rparr>\<rparr>
      in setLocal (case a of Plain v \<Rightarrow> v | Mapper f \<Rightarrow> f (local (cells s1))) s1)"

text \<open>
  \<open>pull()\<close>: \<open>handler.get\<close> has returned a value, which is applied at once, or a promise,
  whose continuation \<open>(x) => resolve(updateFromRemote(x))\<close> runs when it resolves.
\<close>

datatype got = Now jsval | Promised

definition pull :: "reconcile \<Rightarrow> got \<Rightarrow> sstate \<Rightarrow> sstate" where
  "pull rc g s = (case g of Now v \<Rightarrow> updateFromRemote rc v s | Promised \<Rightarrow> s)"

definition resolved :: "reconcile \<Rightarrow> jsval \<Rightarrow> sstate \<Rightarrow> sstate" where
  "resolved rc x s = updateFromRemote rc x s"

text \<open>\<open>push()\<close>: \<open>if (!hasLocal) return; handler.set(untrack(local)!)\<close>.\<close>

definition push :: "sstate \<Rightarrow> sstate" where
  "push s =
     (if \<not> hasLocal (vars s) then s
      else s\<lparr>vars := (vars s)\<lparr>sent := sent (vars s) @ [local (cells s)]\<rparr>\<rparr>)"

text \<open>
  The function given to \<open>quantum\<close>: it calls \<open>handler.sub(updateFromRemote)\<close>, then
  \<open>setSubscribed(true)\<close>, and returns \<open>() => { setSubscribed(false); dispose(); }\<close>.
  \<open>feed\<close> lists the values that \<open>handler.sub\<close> passes to its argument before it returns.
\<close>

definition unsubscribe :: "sstate \<Rightarrow> sstate" where
  "unsubscribe w =
     (let w1 = setSubscribed False w in w1\<lparr>vars := (vars w1)\<lparr>unsubs := Suc (unsubs (vars w1))\<rparr>\<rparr>)"

definition subscribe :: "reconcile \<Rightarrow> jsval list \<Rightarrow> sstate track" where
  "subscribe rc feed w =
     (let w1 = w\<lparr>vars := (vars w)\<lparr>subs := Suc (subs (vars w))\<rparr>\<rparr>;
          w2 = foldl (\<lambda>w x. updateFromRemote rc x w) w1 feed
      in (unsubscribe, setSubscribed True w2))"

text \<open>
  \<open>createSubscription(handler, options)\<close>; \<open>initial\<close> is \<open>options?.initial\<close>, \<open>Undefined\<close>
  when absent. \<open>hasLocal\<close> starts as \<open>!!options?.initial\<close>, and the memo is evaluated once.
\<close>

definition createSubscription :: "jsval \<Rightarrow> sstate qstate" where
  "createSubscription initial =
     quantum_init
       \<lparr>cells = memo \<lparr>local = initial, cache = Undefined, subscribed = False, detached = False\<rparr>,
        vars = \<lparr>hasLocal = truthy initial, sent = [], subs = 0, unsubs = 0\<rparr>,
        depth = 0, dirty = False, passes = []\<rparr>"

text \<open>
  What can happen to a subscription: its accessor is read (under a listener or not;
  \<open>feed\<close> is what \<open>handler.sub\<close> does if this read subscribes), its setter is called,
  \<open>pull()\<close>, a pulled promise resolves, \<open>push()\<close>, the live feed delivers a value, a
  computation that read it reruns or is disposed, a queued microtask runs.
\<close>

datatype sevent =
  SRead "jsval list" "nat option" | SWrite setarg | SPull got | SResolved jsval
  | SPush | SFeed jsval | SCleanup nat | SMicrotask

definition in_world :: "('w \<Rightarrow> 'w) \<Rightarrow> 'w qstate \<Rightarrow> 'w qstate" where
  "in_world f q = q\<lparr>world := f (world q)\<rparr>"

fun sstep :: "reconcile \<Rightarrow> sevent \<Rightarrow> sstate qstate \<Rightarrow> sstate qstate" where
  "sstep rc (SRead feed listener) q =
     fst (quantum (\<lambda>w. local (cells w)) (subscribe rc feed) listener q)"
| "sstep rc (SWrite a) q = in_world (setter a) q"
| "sstep rc (SPull g) q = in_world (pull rc g) q"
| "sstep rc (SResolved x) q = in_world (resolved rc x) q"
| "sstep rc SPush q = in_world push q"
| "sstep rc (SFeed x) q = in_world (updateFromRemote rc x) q"
| "sstep rc (SCleanup l) q = cleanups l q"
| "sstep rc SMicrotask q = microtask q"

definition sexec :: "reconcile \<Rightarrow> sevent list \<Rightarrow> sstate qstate \<Rightarrow> sstate qstate" where
  "sexec rc es q = foldl (\<lambda>q e. sstep rc e q) q es"

text \<open>The memo agrees with the signals it was computed from.\<close>

definition memo_ok :: "scells \<Rightarrow> bool" where
  "memo_ok c = (detached c = (\<not> strict_eq (local c) (cache c)))"

text \<open>
  A subscription is consistent when the memo agrees with the signals now and in every
  notification pass the observers have seen, and the disposal function held by the demand
  counter, if any, is the one returned by \<open>subscribe\<close>.
\<close>

definition consistent :: "sstate \<Rightarrow> bool" where
  "consistent w = (memo_ok (cells w) \<and> list_all memo_ok (passes w))"

definition sinv :: "sstate qstate \<Rightarrow> bool" where
  "sinv q = (consistent (world q) \<and> (dispose q = None \<or> dispose q = Some unsubscribe))"

text \<open>
  The events that can set \<open>hasLocal\<close>: a write, a remote value applied by \<open>pull()\<close> or by
  the live feed, and a read under a listener whose \<open>handler.sub\<close> delivers a value at once.
\<close>

fun initialises :: "sevent \<Rightarrow> bool" where
  "initialises (SRead feed listener) = (listener \<noteq> None \<and> feed \<noteq> [])"
| "initialises (SWrite a) = True"
| "initialises (SPull (Now v)) = True"
| "initialises (SPull Promised) = False"
| "initialises (SResolved x) = True"
| "initialises SPush = False"
| "initialises (SFeed x) = True"
| "initialises (SCleanup l) = False"
| "initialises SMicrotask = False"

text \<open>The events that set \<open>hasLocal\<close> whatever the state.\<close>

fun assigns :: "sevent \<Rightarrow> bool" where
  "assigns (SWrite a) = True"
| "assigns (SPull (Now v)) = True"
| "assigns (SResolved x) = True"
| "assigns (SFeed x) = True"
| "assigns e = False"

section \<open>Properties of createFetched\<close>

subsection \<open>What the writes change\<close>

lemma cells_writeSignal [simp]: "cells (writeSignal b u r) = (if b then cells r else u (cells r))"
  by (simp add: writeSignal_def Let_def)

lemma vars_writeSignal [simp]: "vars (writeSignal b u r) = vars r"
  by (simp add: writeSignal_def Let_def)

lemma depth_writeSignal [simp]: "depth (writeSignal b u r) = depth r"
  by (simp add: writeSignal_def Let_def)

lemma vars_setters [simp]:
  "vars (setState st s) = vars s" "vars (setLatest x s) = vars s"
  "vars (storeError x s) = vars s" "vars (setSpool x s) = vars s" "vars (update x s) = vars s"
  by (simp_all add: setState_def setLatest_def storeError_def setSpool_def update_def)

lemma cells_setters [simp]:
  "cells (setState st s) = (cells s)\<lparr>state := st\<rparr>"
  "cells (setLatest x s) = (cells s)\<lparr>latest := x\<rparr>"
  "cells (storeError x s) = (cells s)\<lparr>error := x\<rparr>"
  "cells (setSpool x s) = (cells s)\<lparr>spool := x\<rparr>"
  "cells (update x s) = (cells s)\<lparr>spool := x\<rparr>"
  by (auto simp add: setState_def setLatest_def storeError_def setSpool_def update_def strict_eq_def)

lemma depth_setters [simp]:
  "depth (setState st s) = depth s" "depth (setLatest x s) = depth s"
  "depth (storeError x s) = depth s" "depth (setSpool x s) = depth s" "depth (update x s) = depth s"
  by (simp_all add: setState_def setLatest_def storeError_def setSpool_def update_def)

lemma vars_batch [simp]: "vars (batch f r) = vars (f (r\<lparr>depth := Suc (depth r)\<rparr>))"
  by (simp add: batch_def Let_def)

lemma cells_batch [simp]: "cells (batch f r) = cells (f (r\<lparr>depth := Suc (depth r)\<rparr>))"
  by (simp add: batch_def Let_def)

lemma batch_raising_data:
  "cells (fst (batch_raising fn r)) = cells (fst (fn (r\<lparr>depth := Suc (depth r)\<rparr>)))"
  "vars (fst (batch_raising fn r)) = vars (fst (fn (r\<lparr>depth := Suc (depth r)\<rparr>)))"
  "snd (batch_raising fn r) = snd (fn (r\<lparr>depth := Suc (depth r)\<rparr>))"
  by (simp_all add: batch_raising_def Let_def split: prod.splits option.splits)

lemma setError_data:
  "vars (fst (setError e s)) = vars s"
  "spool (cells (fst (setError e s))) = spool (cells s)"
  "latest (cells (fst (setError e s))) = latest (cells s)"
  "state (cells (fst (setError e s))) = state (cells s)"
  "depth (fst (setError e s)) = depth s"
  by (simp_all add: setError_def split: thrown.splits sum.splits)

lemma setError_Val: "setError (Val v) s = (storeError v s, None)"
  by (simp add: setError_def)

lemma on_error_data:
  "vars (fst (on_error e s)) = vars s"
  "spool (cells (fst (on_error e s))) = spool (cells s)"
  "latest (cells (fst (on_error e s))) = latest (cells s)"
  "state (cells (fst (on_error e s))) = Errored"
  by (simp_all add: on_error_def batch_raising_data setError_data)

lemma on_error_Val:
  "snd (on_error (Val v) s) = None"
  "cells (fst (on_error (Val v) s)) = (cells s)\<lparr>state := Errored, error := v\<rparr>"
  by (simp_all add: on_error_def batch_raising_data setError_Val)

subsection \<open>Cells and variables do not depend on the depth\<close>

lemma agree_refl [simp]: "agree s s"
  by (simp add: agree_def)

lemma agree_depth [simp]: "agree (s\<lparr>depth := d\<rparr>) s"
  by (simp add: agree_def)

lemma agree_trans: "agree s t \<Longrightarrow> agree t u \<Longrightarrow> agree s u"
  by (simp add: agree_def)

lemma agree_setters:
  assumes "agree s t"
  shows "agree (setState st s) (setState st t)" "agree (setLatest x s) (setLatest x t)"
    "agree (storeError x s) (storeError x t)" "agree (update x s) (update x t)"
  using assms by (simp_all add: agree_def)

lemma agree_commit: "agree s t \<Longrightarrow> agree (commit k x s) (commit k x t)"
  by (simp add: agree_def commit_def Let_def)

lemma agree_commits:
  "agree s t \<Longrightarrow> agree (foldl (\<lambda>s x. commit k x s) s cs) (foldl (\<lambda>s x. commit k x s) t cs)"
  by (induction cs arbitrary: s t) (simp_all add: agree_commit)

lemma agree_cleanup: "agree s t \<Longrightarrow> agree (cleanup s) (cleanup t)"
  by (simp add: agree_def cleanup_def Let_def)

lemma agree_setError:
  "agree s t \<Longrightarrow> agree (fst (setError e s)) (fst (setError e t)) \<and> snd (setError e s) = snd (setError e t)"
  by (auto simp add: agree_def setError_def split: thrown.splits sum.splits)

lemma agree_on_error:
  assumes "agree s t"
  shows "agree (fst (on_error e s)) (fst (on_error e t)) \<and> snd (on_error e s) = snd (on_error e t)"
proof -
  have "agree (setState Errored (s\<lparr>depth := Suc (depth s)\<rparr>)) (setState Errored (t\<lparr>depth := Suc (depth t)\<rparr>))"
    using assms by (simp add: agree_def)
  from agree_setError [OF this, of e] show ?thesis
    by (simp add: on_error_def agree_def batch_raising_data)
qed

lemma computed_returns:
  "computed (cs, None) s
   = (foldl (\<lambda>t x. commit (length (invalided (vars s))) x t)
        (setState (if hasLatest (vars s) then Refreshing else Pending)
           (s\<lparr>vars := (vars s)\<lparr>invalided := invalided (vars s) @ [False]\<rparr>\<rparr>)) cs, None)"
  by (simp add: computed_def try_catch_def call_winch_def Let_def)

lemma computed_throw: "computed (cs, Some e) s = on_error e (fst (computed (cs, None) s))"
  by (simp add: computed_def try_catch_def call_winch_def Let_def)

lemma agree_computed:
  assumes "agree s t"
  shows "agree (fst (computed w s)) (fst (computed w t)) \<and> snd (computed w s) = snd (computed w t)"
proof (cases w)
  case (Pair cs th)
  have v: "vars t = vars s"
    using assms by (simp add: agree_def)
  have "agree (setState (if hasLatest (vars s) then Refreshing else Pending)
                 (s\<lparr>vars := (vars s)\<lparr>invalided := invalided (vars s) @ [False]\<rparr>\<rparr>))
              (setState (if hasLatest (vars s) then Refreshing else Pending)
                 (t\<lparr>vars := (vars s)\<lparr>invalided := invalided (vars s) @ [False]\<rparr>\<rparr>))"
    using assms by (simp add: agree_def)
  then have r: "agree (fst (computed (cs, None) s)) (fst (computed (cs, None) t))"
    by (simp add: computed_returns v agree_commits)
  show ?thesis
  proof (cases th)
    case None
    then show ?thesis
      using r Pair by (simp add: computed_returns)
  next
    case (Some e)
    then show ?thesis
      using agree_on_error [OF r, of e] Pair by (simp add: computed_throw)
  qed
qed

lemma run_agree:
  "agree (fst (run w s)) (fst (computed w (cleanup s)))" "snd (run w s) = snd (computed w (cleanup s))"
proof -
  have "agree (cleanup (s\<lparr>depth := Suc (depth s)\<rparr>)) (cleanup s)"
    by (rule agree_cleanup) simp
  from agree_computed [OF this, of w]
  show "agree (fst (run w s)) (fst (computed w (cleanup s)))"
    and "snd (run w s) = snd (computed w (cleanup s))"
    by (simp_all add: run_def batch_raising_data agree_def)
qed

lemma run_cells: "cells (fst (run w s)) = cells (fst (computed w (cleanup s)))"
  using run_agree(1) [of w s] by (simp add: agree_def)

lemma run_vars: "vars (fst (run w s)) = vars (fst (computed w (cleanup s)))"
  using run_agree(1) [of w s] by (simp add: agree_def)

lemma late_agree:
  "agree (fst (batch_raising (computed w) s)) (fst (computed w s))"
  "snd (batch_raising (computed w) s) = snd (computed w s)"
  using agree_computed [of "s\<lparr>depth := Suc (depth s)\<rparr>" s w]
  by (simp_all add: batch_raising_data agree_def)

subsection \<open>Superseded executions\<close>

lemma commit_stale: "k < length (invalided (vars s)) \<Longrightarrow> invalided (vars s) ! k \<Longrightarrow> commit k x s = s"
  by (simp add: commit_def)

lemma invalided_commit [simp]: "invalided (vars (commit k x s)) = invalided (vars s)"
  by (simp add: commit_def Let_def)

lemma invalided_commits [simp]: "invalided (vars (foldl (\<lambda>s x. commit k x s) s xs)) = invalided (vars s)"
  by (induction xs arbitrary: s) simp_all

lemma invalided_cleanup: "invalided (vars (cleanup s)) = (invalided (vars s))[length (invalided (vars s)) - 1 := True]"
  by (simp add: cleanup_def Let_def)

lemma invalided_computed: "invalided (vars (fst (computed w s))) = invalided (vars s) @ [False]"
proof (cases w)
  case (Pair cs th)
  have "invalided (vars (fst (computed (cs, None) s))) = invalided (vars s) @ [False]"
    by (simp add: computed_returns)
  then show ?thesis
    using Pair by (cases th) (simp_all add: computed_throw on_error_data)
qed

lemma invalided_run: "invalided (vars (fst (run w s))) = (invalided (vars s))[length (invalided (vars s)) - 1 := True] @ [False]"
  by (simp add: run_vars invalided_computed invalided_cleanup)

lemma stale_commit: "stale k s \<Longrightarrow> stale k (commit j x s)"
  by (simp add: stale_def)

lemma stale_cleanup: "stale k s \<Longrightarrow> stale k (cleanup s)"
  by (auto simp add: stale_def invalided_cleanup nth_list_update)

lemma stale_run: "stale k s \<Longrightarrow> stale k (fst (run w s))"
  by (auto simp add: stale_def invalided_run nth_append nth_list_update)

lemma fst_fetched:
  "fst (fetched w s)
   = (if init (vars s) then fst (batch_raising (computed w) (s\<lparr>vars := (vars s)\<lparr>init := False\<rparr>\<rparr>))
      else s)"
  by (simp add: fetched_def split: prod.splits option.splits)

lemma fetched_late:
  "init (vars s) \<Longrightarrow>
   agree (fst (fetched w s)) (fst (computed w (s\<lparr>vars := (vars s)\<lparr>init := False\<rparr>\<rparr>)))"
  using late_agree(1) [of w "s\<lparr>vars := (vars s)\<lparr>init := False\<rparr>\<rparr>"]
  by (simp add: fst_fetched)

lemma stale_fetched: "stale k s \<Longrightarrow> stale k (fst (fetched w s))"
proof (cases "init (vars s)")
  case True
  assume a: "stale k s"
  have "invalided (vars (fst (fetched w s))) = invalided (vars s) @ [False]"
    using fetched_late [OF True, of w] by (simp add: agree_def invalided_computed)
  then show ?thesis
    using a by (auto simp add: stale_def nth_append)
next
  case False
  assume "stale k s"
  then show ?thesis using False by (simp add: fst_fetched)
qed

lemma stale_fstep: "stale k s \<Longrightarrow> stale k (fstep e s)"
  by (cases e) (simp_all add: stale_commit stale_cleanup stale_run stale_fetched)

lemma stale_fexec: "stale k s \<Longrightarrow> stale k (fexec es s)"
  unfolding fexec_def by (induction es arbitrary: s) (simp_all add: stale_fstep)

lemma stale_after_rerun: "stale (length (invalided (vars s))) (fst (run w2 (fst (run w1 s))))"
  by (simp add: stale_def invalided_run nth_append)

text \<open>
  Claim C1. If a later execution starts before a callback of an earlier execution is called,
  the earlier callback is a no-op. Let execution \<open>k\<close> start in any state \<open>s\<close> and the next
  execution start after it, whatever the two winches do while they run. Then, whatever
  happens afterwards (\<open>es\<close>), a call of the callback of execution \<open>k\<close> leaves the whole
  state as it is: \<open>state\<close>, \<open>latest\<close>, the reader \<open>spool\<close>, and no notification pass. When
  the later execution commits \<open>y\<close> and the earlier one \<open>x\<close>, in either order, the result is
  that of the later commit alone: ready, with \<open>y\<close> as \<open>latest\<close> and as the reader's value.
\<close>

theorem superseded_commit_is_noop:
  "(let k = length (invalided (vars s));
        s2 = fst (run w2 (fst (run w1 s)))
    in commit k x (fexec es s2) = fexec es s2
     \<and> commit k x (commit (Suc k) y s2) = commit (Suc k) y s2
     \<and> commit (Suc k) y (commit k x s2) = commit (Suc k) y s2
     \<and> cells (commit (Suc k) y s2) = (cells s2)\<lparr>state := Ready, latest := y, spool := y\<rparr>)"
proof -
  define k where "k = length (invalided (vars s))"
  define s2 where "s2 = fst (run w2 (fst (run w1 s)))"
  have st: "stale k s2"
    unfolding k_def s2_def by (rule stale_after_rerun)
  have a: "commit k x (fexec es s2) = fexec es s2"
    using stale_fexec [OF st, of es] by (simp add: stale_def commit_stale)
  have b: "commit k x (commit (Suc k) y s2) = commit (Suc k) y s2"
    using stale_commit [OF st, of "Suc k" y] by (simp add: stale_def commit_stale)
  have c: "commit k x s2 = s2"
    using st by (simp add: stale_def commit_stale)
  have live: "Suc k < length (invalided (vars s2))" "\<not> invalided (vars s2) ! Suc k"
    unfolding k_def s2_def by (simp_all add: invalided_run nth_append)
  have d: "cells (commit (Suc k) y s2) = (cells s2)\<lparr>state := Ready, latest := y, spool := y\<rparr>"
    using live by (simp add: commit_def Let_def)
  show ?thesis
    using a b c d unfolding k_def s2_def by (simp add: Let_def)
qed

lemmas fetch_eval =
  createFetched_def run_cells run_vars run_agree(2) computed_returns computed_throw
  on_error_Val on_error_data cleanup_def commit_def fexec_def stale_def Let_def

subsection \<open>Pending or refreshing\<close>

lemma hasLatest_commit: "hasLatest (vars (commit k x s)) = (hasLatest (vars s) \<or> accepted (Commit k x) s)"
  by (auto simp add: commit_def Let_def stale_def)

lemma hasLatest_cleanup: "hasLatest (vars (cleanup s)) = hasLatest (vars s)"
  by (simp add: cleanup_def Let_def)

lemma commits_fresh:
  "k < length (invalided (vars s)) \<Longrightarrow> \<not> invalided (vars s) ! k \<Longrightarrow>
   hasLatest (vars (foldl (\<lambda>s x. commit k x s) s cs)) = (hasLatest (vars s) \<or> cs \<noteq> [])"
proof (induction cs arbitrary: s)
  case Nil
  then show ?case by simp
next
  case (Cons c cs)
  have "hasLatest (vars (commit k c s))"
    using Cons.prems by (simp add: hasLatest_commit stale_def)
  then show ?case
    using Cons.IH [of "commit k c s"] Cons.prems by simp
qed

lemma hasLatest_computed: "hasLatest (vars (fst (computed (cs, th) s))) = (hasLatest (vars s) \<or> cs \<noteq> [])"
proof -
  have "hasLatest (vars (fst (computed (cs, None) s))) = (hasLatest (vars s) \<or> cs \<noteq> [])"
    by (simp add: computed_returns commits_fresh nth_append)
  then show ?thesis
    by (cases th) (simp_all add: computed_throw on_error_data)
qed

lemma hasLatest_run: "hasLatest (vars (fst (run (cs, th) s))) = (hasLatest (vars s) \<or> cs \<noteq> [])"
  by (simp add: run_vars hasLatest_computed hasLatest_cleanup)

lemma cells_computed_idle:
  "cells (fst (computed ([], None) s))
   = (cells s)\<lparr>state := (if hasLatest (vars s) then Refreshing else Pending)\<rparr>"
  by (simp add: computed_returns)

lemma cells_run_idle:
  "cells (fst (run ([], None) s))
   = (cells (cleanup s))\<lparr>state := (if hasLatest (vars s) then Refreshing else Pending)\<rparr>"
  by (simp add: run_cells cells_computed_idle hasLatest_cleanup)

lemma state_run_idle:
  "state (cells (fst (run ([], None) s))) = (if hasLatest (vars s) then Refreshing else Pending)"
  by (simp add: cells_run_idle)

text \<open>
  Claim C2 says that an execution enters \<open>refreshing\<close> when a previous ready or errored value
  exists, so that a rerun after a run that ended errored, with no success before, would
  enter \<open>refreshing\<close>. It does not: a fetched signal whose first winch throws is errored
  with no latest value, and its rerun enters \<open>pending\<close>.
\<close>

theorem rerun_after_error_is_pending:
  "state (cells (fst (createFetched ([], Some (Val (Str ''boom''))) Undefined False))) = Errored
   \<and> latest (cells (fst (createFetched ([], Some (Val (Str ''boom''))) Undefined False))) = Undefined
   \<and> state (cells (fst (run ([], None)
        (fst (createFetched ([], Some (Val (Str ''boom''))) Undefined False))))) = Pending
   \<and> state (cells (fst (run ([], None)
        (fst (createFetched ([], Some (Val (Str ''boom''))) Undefined False))))) \<noteq> Refreshing"
  by (simp add: fetch_eval)

text \<open>
  Claim C2, amended. An execution sets \<open>state\<close> to \<open>refreshing\<close> if \<open>hasLatest\<close> is set, and
  to \<open>pending\<close> otherwise (shown on an execution whose winch does nothing more while it
  runs). \<open>hasLatest\<close> is unset at creation and is set by an accepted commit only: an
  execution sets it exactly when its winch commits while running, a late callback exactly
  when it is not superseded, a cleanup never; a winch that throws does not set it.
\<close>

theorem run_enters_refreshing_iff_committed:
  "state (cells (fst (run ([], None) s))) = (if hasLatest (vars s) then Refreshing else Pending)
   \<and> hasLatest (vars (fst (createFetched (cs, th) initial late))) = (\<not> late \<and> cs \<noteq> [])
   \<and> hasLatest (vars (fst (run (cs, th) s))) = (hasLatest (vars s) \<or> cs \<noteq> [])
   \<and> hasLatest (vars (commit k x s)) = (hasLatest (vars s) \<or> accepted (Commit k x) s)
   \<and> hasLatest (vars (cleanup s)) = hasLatest (vars s)"
  by (simp add: state_run_idle hasLatest_run hasLatest_commit hasLatest_cleanup hasLatest_computed
        createFetched_def Let_def del: accepted.simps)

subsection \<open>A winch that throws\<close>

lemma settled_writeSignal: "settled r \<Longrightarrow> settled (writeSignal b u r)"
  by (simp add: settled_def writeSignal_def Let_def)

lemma settled_batch:
  "settled r \<Longrightarrow> depth (fn (r\<lparr>depth := Suc (depth r)\<rparr>)) = Suc (depth r) \<Longrightarrow> settled (batch fn r)"
  by (simp add: settled_def batch_def Let_def)

lemma passes_batch:
  "settled r \<Longrightarrow> depth (fn (r\<lparr>depth := Suc (depth r)\<rparr>)) = Suc (depth r) \<Longrightarrow>
   passes (fn (r\<lparr>depth := Suc (depth r)\<rparr>)) = passes r \<Longrightarrow>
   passes (batch fn r) = passes r \<or> passes (batch fn r) = cells (batch fn r) # passes r"
  by (simp add: settled_def batch_def Let_def)

lemma inner_writeSignal: "depth r \<noteq> 0 \<Longrightarrow> passes (writeSignal b u r) = passes r"
  by (simp add: writeSignal_def Let_def)

lemma inner_setters:
  "depth s \<noteq> 0 \<Longrightarrow> passes (setState st s) = passes s"
  "depth s \<noteq> 0 \<Longrightarrow> passes (setLatest x s) = passes s"
  "depth s \<noteq> 0 \<Longrightarrow> passes (storeError x s) = passes s"
  "depth s \<noteq> 0 \<Longrightarrow> passes (setSpool x s) = passes s"
  "depth s \<noteq> 0 \<Longrightarrow> passes (update x s) = passes s"
  by (simp_all add: setState_def setLatest_def storeError_def setSpool_def update_def inner_writeSignal)

lemma inner_batch:
  "depth r \<noteq> 0 \<Longrightarrow> depth (fn (r\<lparr>depth := Suc (depth r)\<rparr>)) = Suc (depth r) \<Longrightarrow>
   passes (fn (r\<lparr>depth := Suc (depth r)\<rparr>)) = passes r \<Longrightarrow>
   passes (batch fn r) = passes r \<and> depth (batch fn r) = depth r"
  by (simp add: batch_def Let_def)

lemma inner_commit: "depth s \<noteq> 0 \<Longrightarrow> passes (commit k x s) = passes s \<and> depth (commit k x s) = depth s"
  unfolding commit_def
  by (auto simp add: Let_def inner_setters intro!: inner_batch [THEN conjunct1] inner_batch [THEN conjunct2])

lemma inner_commits:
  "depth s \<noteq> 0 \<Longrightarrow>
   passes (foldl (\<lambda>s x. commit k x s) s cs) = passes s \<and> depth (foldl (\<lambda>s x. commit k x s) s cs) = depth s"
  by (induction cs arbitrary: s) (simp_all add: inner_commit)

lemma inner_cleanup: "depth s \<noteq> 0 \<Longrightarrow> passes (cleanup s) = passes s \<and> depth (cleanup s) = depth s"
  by (simp add: cleanup_def Let_def inner_setters)

lemma on_error_Val_eq: "on_error (Val v) s = (batch (\<lambda>s. storeError v (setState Errored s)) s, None)"
  by (auto simp add: on_error_def batch_raising_def batch_def setError_Val Let_def)

lemma inner_on_error:
  "depth s \<noteq> 0 \<Longrightarrow>
   passes (fst (on_error (Val v) s)) = passes s \<and> depth (fst (on_error (Val v) s)) = depth s"
  by (simp add: on_error_Val_eq inner_batch inner_setters)

lemma inner_computed_returns:
  "depth s \<noteq> 0 \<Longrightarrow>
   passes (fst (computed (cs, None) s)) = passes s \<and> depth (fst (computed (cs, None) s)) = depth s"
  by (simp add: computed_returns inner_commits inner_setters)

lemma inner_computed_throw:
  "depth s \<noteq> 0 \<Longrightarrow>
   passes (fst (computed (cs, Some (Val v)) s)) = passes s
   \<and> depth (fst (computed (cs, Some (Val v)) s)) = depth s"
  by (simp add: computed_throw inner_on_error inner_computed_returns)

lemma settled_setters:
  "settled s \<Longrightarrow> settled (setState st s)" "settled s \<Longrightarrow> settled (setLatest x s)"
  "settled s \<Longrightarrow> settled (storeError x s)" "settled s \<Longrightarrow> settled (setSpool x s)"
  "settled s \<Longrightarrow> settled (update x s)"
  by (simp_all add: setState_def setLatest_def storeError_def setSpool_def update_def settled_writeSignal)

lemma settled_vars [simp]: "settled (s\<lparr>vars := v\<rparr>) = settled s"
  by (simp add: settled_def)

lemma settled_commit: "settled s \<Longrightarrow> settled (commit k x s)"
  by (simp add: commit_def Let_def settled_batch)

lemma settled_commits: "settled s \<Longrightarrow> settled (foldl (\<lambda>s x. commit k x s) s cs)"
  by (induction cs arbitrary: s) (simp_all add: settled_commit)

lemma settled_computed_returns: "settled s \<Longrightarrow> settled (fst (computed (cs, None) s))"
  by (simp add: computed_returns settled_commits settled_setters)

lemma settled_on_error:
  assumes "settled s"
  shows "settled (fst (on_error (Val v) s))"
    and "passes (fst (on_error (Val v) s)) = passes s
         \<or> passes (fst (on_error (Val v) s)) = cells (fst (on_error (Val v) s)) # passes s"
proof -
  show "settled (fst (on_error (Val v) s))"
    using assms by (simp add: on_error_Val_eq settled_batch)
  have "passes (batch (\<lambda>s. storeError v (setState Errored s)) s) = passes s
        \<or> passes (batch (\<lambda>s. storeError v (setState Errored s)) s)
           = cells (batch (\<lambda>s. storeError v (setState Errored s)) s) # passes s"
    using assms by (intro passes_batch) (simp_all add: inner_setters)
  then show "passes (fst (on_error (Val v) s)) = passes s
         \<or> passes (fst (on_error (Val v) s)) = cells (fst (on_error (Val v) s)) # passes s"
    by (simp add: on_error_Val_eq)
qed

lemma settled_createFetched:
  assumes "th = None \<or> th = Some (Val v)"
  shows "settled (fst (createFetched (cs, th) initial late))"
proof -
  let ?s0 = "\<lparr>cells = \<lparr>error = Undefined, latest = initial, state = Unresolved, spool = initial\<rparr>,
              vars = \<lparr>hasLatest = False, invalided = [], init = late\<rparr>,
              depth = 0, dirty = False, passes = []\<rparr>"
  have s0: "settled ?s0"
    by (simp add: settled_def)
  then have r: "settled (fst (computed (cs, None) ?s0))"
    by (rule settled_computed_returns)
  have "settled (fst (computed (cs, th) ?s0))"
    using assms r settled_on_error(1) [OF r, of v] by (auto simp add: computed_throw)
  then show ?thesis
    using s0 by (cases late) (simp_all add: createFetched_def Let_def)
qed

lemma cycle_returns:
  assumes "settled r" and "snd (fn (r\<lparr>depth := Suc (depth r)\<rparr>)) = None"
    and "depth (fst (fn (r\<lparr>depth := Suc (depth r)\<rparr>))) = Suc (depth r)"
    and "passes (fst (fn (r\<lparr>depth := Suc (depth r)\<rparr>))) = passes r"
  shows "settled (fst (batch_raising fn r))"
    and "passes (fst (batch_raising fn r)) = passes r
         \<or> passes (fst (batch_raising fn r)) = cells (fst (batch_raising fn r)) # passes r"
  using assms
  by (auto simp add: settled_def batch_raising_def Let_def split: prod.splits option.splits)

lemma run_once:
  assumes "settled s" and "th = None \<or> th = Some (Val v)"
  shows "settled (fst (run (cs, th) s))"
    and "passes (fst (run (cs, th) s)) = passes s
         \<or> passes (fst (run (cs, th) s)) = cells (fst (run (cs, th) s)) # passes s"
proof -
  let ?r = "s\<lparr>depth := Suc (depth s)\<rparr>"
  have d: "depth ?r \<noteq> 0" by simp
  have c: "passes (cleanup ?r) = passes s" "depth (cleanup ?r) = Suc (depth s)"
    using inner_cleanup [OF d] by simp_all
  then have d': "depth (cleanup ?r) \<noteq> 0" by simp
  have n: "snd (computed (cs, th) (cleanup ?r)) = None"
    using assms(2) by (auto simp add: computed_returns computed_throw on_error_Val)
  have p: "passes (fst (computed (cs, th) (cleanup ?r))) = passes s
           \<and> depth (fst (computed (cs, th) (cleanup ?r))) = Suc (depth s)"
    using assms(2) inner_computed_returns [OF d', of cs] inner_computed_throw [OF d', of cs v] c
    by auto
  show "settled (fst (run (cs, th) s))"
    unfolding run_def using assms(1) n p by (intro cycle_returns(1)) simp_all
  show "passes (fst (run (cs, th) s)) = passes s
         \<or> passes (fst (run (cs, th) s)) = cells (fst (run (cs, th) s)) # passes s"
    unfolding run_def using assms(1) n p by (intro cycle_returns(2)) simp_all
qed

lemma spool_cleanup:
  "spool (cells (cleanup s)) = (if invalided (vars s) = [] then spool (cells s) else Undefined)"
  by (simp add: cleanup_def Let_def)

lemma latest_cleanup: "latest (cells (cleanup s)) = latest (cells s)"
  by (simp add: cleanup_def Let_def)

text \<open>
  Claim C3 says that a winch that throws while it runs leaves the reader without a value
  change. On a rerun it does not: the cleanup of the superseded execution has reset the
  reader before the winch is called, so a fetched signal that read 1 reads \<open>undefined\<close> once
  its rerun has failed.
\<close>

theorem failing_rerun_resets_reader:
  "spool (cells (fst (createFetched ([Num 1], None) Undefined False))) = Num 1
   \<and> snd (run ([], Some (Val (Str ''boom'')))
        (fst (createFetched ([Num 1], None) Undefined False))) = None
   \<and> cells (fst (run ([], Some (Val (Str ''boom'')))
        (fst (createFetched ([Num 1], None) Undefined False))))
       = \<lparr>error = Str ''boom'', latest = Num 1, state = Errored, spool = Undefined\<rparr>"
  by (simp add: fetch_eval)

text \<open>
  The thrown value reaches the setter of \<open>error\<close> as it is. A thrown function is therefore
  called with the previous error: what it returns is stored in place of the function, and
  what it raises escapes from the catch clause, with \<open>state\<close> errored and \<open>error\<close> as it was.
\<close>

lemma thrown_function_is_called:
  "error (cells (fst (computed (cs, Some (Fn f (\<lambda>prev. Inr (Num 42)))) s))) = Num 42
   \<and> error (cells (fst (computed (cs, Some (Fn f (\<lambda>prev. Inr (Num 42)))) s)))
       \<noteq> thrown_value (Fn f (\<lambda>prev. Inr (Num 42)))
   \<and> snd (computed (cs, Some (Fn f (\<lambda>prev. Inr (Num 42)))) s) = None
   \<and> snd (computed (cs, Some (Fn f (\<lambda>prev. Inl (Str ''again'')))) s) = Some (Str ''again'')
   \<and> state (cells (fst (computed (cs, Some (Fn f (\<lambda>prev. Inl (Str ''again'')))) s))) = Errored
   \<and> error (cells (fst (computed (cs, Some (Fn f (\<lambda>prev. Inl (Str ''again'')))) s)))
       = error (cells (fst (computed (cs, None) s)))"
  by (simp add: computed_throw on_error_def batch_raising_data setError_def)

text \<open>
  Claim C3, amended. Let the winch throw \<open>e\<close>, which is not a function, while it runs, after
  committing \<open>cs\<close>; \<open>mid\<close> is the state that the same execution leaves when the winch returns
  instead. Nothing escapes; only \<open>state\<close>, now errored, and \<open>error\<close>, now \<open>e\<close>, differ from
  \<open>mid\<close>: the catch clause writes neither \<open>latest\<close> nor the reader. So after a winch that
  throws before it commits, \<open>latest\<close> is as it was and the reader is, on a first execution,
  as it was, and on a rerun \<open>undefined\<close>, as the cleanup of the superseded execution left it.
  The observers see \<open>state\<close> and \<open>error\<close> change together: a first execution started outside
  a batch makes at most one notification pass for the catch clause, and a rerun makes at
  most one for the whole rerun.
\<close>

theorem synchronous_failure_is_contained:
  "(let mid = fst (computed (cs, None) s); r = computed (cs, Some (Val e)) s
    in snd r = None
     \<and> cells (fst r) = (cells mid)\<lparr>state := Errored, error := e\<rparr>
     \<and> vars (fst r) = vars mid
     \<and> (cs = [] \<longrightarrow> spool (cells (fst r)) = spool (cells s)
                  \<and> latest (cells (fst r)) = latest (cells s))
     \<and> (settled s \<longrightarrow> settled (fst r)
            \<and> (passes (fst r) = passes mid \<or> passes (fst r) = cells (fst r) # passes mid)))
   \<and> (let mid = fst (run (cs, None) s); r = run (cs, Some (Val e)) s
    in snd r = None
     \<and> cells (fst r) = (cells mid)\<lparr>state := Errored, error := e\<rparr>
     \<and> vars (fst r) = vars mid
     \<and> (cs = [] \<longrightarrow>
          spool (cells (fst r)) = (if invalided (vars s) = [] then spool (cells s) else Undefined)
          \<and> latest (cells (fst r)) = latest (cells s))
     \<and> (settled s \<longrightarrow> settled (fst r)
            \<and> (passes (fst r) = passes s \<or> passes (fst r) = cells (fst r) # passes s)))"
proof -
  define mid where "mid = fst (computed (cs, None) s)"
  define h where "h = fst (computed (cs, Some (Val e)) s)"
  have hm: "h = fst (on_error (Val e) mid)"
    unfolding h_def mid_def by (simp add: computed_throw)
  have a1: "snd (computed (cs, Some (Val e)) s) = None"
    by (simp add: computed_throw on_error_Val)
  have a2: "cells h = (cells mid)\<lparr>state := Errored, error := e\<rparr>" and a3: "vars h = vars mid"
    unfolding hm by (simp_all add: on_error_Val on_error_data)
  have a4: "cs = [] \<longrightarrow> spool (cells h) = spool (cells s) \<and> latest (cells h) = latest (cells s)"
    using a2 unfolding mid_def by (simp add: cells_computed_idle)
  have a5: "settled s \<longrightarrow> settled h \<and> (passes h = passes mid \<or> passes h = cells h # passes mid)"
  proof
    assume "settled s"
    then have "settled mid"
      unfolding mid_def by (rule settled_computed_returns)
    then show "settled h \<and> (passes h = passes mid \<or> passes h = cells h # passes mid)"
      unfolding hm using settled_on_error by blast
  qed
  define rmid where "rmid = fst (run (cs, None) s)"
  define rh where "rh = fst (run (cs, Some (Val e)) s)"
  have b1: "snd (run (cs, Some (Val e)) s) = None"
    by (simp add: run_agree(2) computed_throw on_error_Val)
  have b2: "cells rh = (cells rmid)\<lparr>state := Errored, error := e\<rparr>" and b3: "vars rh = vars rmid"
    unfolding rh_def rmid_def
    by (simp_all add: run_cells run_vars computed_throw on_error_Val on_error_data)
  have b4: "cs = [] \<longrightarrow>
          spool (cells rh) = (if invalided (vars s) = [] then spool (cells s) else Undefined)
          \<and> latest (cells rh) = latest (cells s)"
    using b2 unfolding rmid_def by (simp add: cells_run_idle spool_cleanup latest_cleanup)
  have b5: "settled s \<longrightarrow> settled rh \<and> (passes rh = passes s \<or> passes rh = cells rh # passes s)"
    unfolding rh_def using run_once [of s "Some (Val e)" e cs] by blast
  show ?thesis
    using a1 a2 a3 a4 a5 b1 b2 b3 b4 b5
    unfolding Let_def mid_def h_def rmid_def rh_def by blast
qed

subsection \<open>The reader after supersession\<close>

lemma idle_computed:
  "spool (cells (fst (computed ([], th) s))) = spool (cells s)"
  "latest (cells (fst (computed ([], th) s))) = latest (cells s)"
  by (cases th; simp add: computed_throw on_error_data cells_computed_idle)+

lemma idle_run:
  "spool (cells (fst (run ([], th) s))) = spool (cells (cleanup s))"
  "latest (cells (fst (run ([], th) s))) = latest (cells s)"
  by (simp_all add: run_cells idle_computed latest_cleanup)

lemma idle_fetched:
  assumes "\<not> accepted (Read w) s"
  shows "spool (cells (fst (fetched w s))) = spool (cells s)"
    and "latest (cells (fst (fetched w s))) = latest (cells s)"
proof -
  obtain cs th where w: "w = (cs, th)" by (cases w)
  show "spool (cells (fst (fetched w s))) = spool (cells s)"
  proof (cases "init (vars s)")
    case True
    with assms w have "cs = []" by simp
    then show ?thesis
      using fetched_late [OF True, of w] w by (simp add: agree_def idle_computed)
  qed (simp add: fst_fetched)
  show "latest (cells (fst (fetched w s))) = latest (cells s)"
  proof (cases "init (vars s)")
    case True
    with assms w have "cs = []" by simp
    then show ?thesis
      using fetched_late [OF True, of w] w by (simp add: agree_def idle_computed)
  qed (simp add: fst_fetched)
qed

lemma snd_fetched: "snd (fetched w s) = Inr v \<Longrightarrow> v = spool (cells (fst (fetched w s)))"
  by (auto simp add: fetched_def split: if_splits prod.splits option.splits)

lemma snd_fetched_eager: "\<not> init (vars s) \<Longrightarrow> fetched w s = (s, Inr (spool (cells s)))"
  by (simp add: fetched_def)

lemma computed_no_escape:
  assumes "\<forall>f call. snd w \<noteq> Some (Fn f call)"
  shows "snd (computed w s) = None"
proof -
  obtain cs th where w: "w = (cs, th)" by (cases w)
  show ?thesis
  proof (cases th)
    case None
    then show ?thesis using w by (simp add: computed_returns)
  next
    case (Some t)
    then show ?thesis
      using w assms by (cases t) (simp_all add: computed_throw on_error_Val)
  qed
qed

lemma fetched_returns:
  assumes "\<forall>f call. snd w \<noteq> Some (Fn f call)"
  shows "snd (fetched w s) = Inr (spool (cells (fst (fetched w s))))"
proof (cases "init (vars s)")
  case True
  have "snd (batch_raising (computed w) (s\<lparr>vars := (vars s)\<lparr>init := False\<rparr>\<rparr>)) = None"
    using computed_no_escape [OF assms] by (simp add: batch_raising_data)
  then show ?thesis
    using True by (auto simp add: fetched_def split: prod.splits option.splits)
next
  case False
  then show ?thesis by (simp add: fetched_def)
qed

lemma quiet_step:
  assumes "spool (cells s) = Undefined" "\<not> accepted e s"
  shows "spool (cells (fstep e s)) = Undefined \<and> latest (cells (fstep e s)) = latest (cells s)"
proof (cases e)
  case (Rerun w)
  then show ?thesis
    using assms by (cases w) (simp add: idle_run spool_cleanup)
next
  case (Commit k x)
  then show ?thesis
    using assms by (auto simp add: commit_def stale_def)
next
  case Dispose
  then show ?thesis
    using assms by (simp add: spool_cleanup latest_cleanup)
next
  case (Read w)
  then show ?thesis
    using assms idle_fetched [of w s] by simp
qed

lemma quiet_exec:
  "spool (cells s) = Undefined \<Longrightarrow> quiet es s \<Longrightarrow>
   spool (cells (fexec es s)) = Undefined \<and> latest (cells (fexec es s)) = latest (cells s)"
  unfolding fexec_def
proof (induction es arbitrary: s)
  case Nil
  then show ?case by simp
next
  case (Cons e es)
  from quiet_step [of s e] Cons.prems
  have "spool (cells (fstep e s)) = Undefined" "latest (cells (fstep e s)) = latest (cells s)"
    by simp_all
  with Cons.IH [of "fstep e s"] Cons.prems show ?case
    by simp
qed

text \<open>
  Claim C9. Once an execution exists, its cleanup resets the reader to \<open>undefined\<close> and
  leaves \<open>latest\<close> alone; and as long as no commit is accepted afterwards (reruns whose winch
  does not commit while running, calls of superseded callbacks, disposal, reads), the
  reader stays \<open>undefined\<close>, \<open>latest\<close> keeps the value it had, and the accessor \<open>fetched\<close>
  returns \<open>undefined\<close>. (Only the first read of the late mode can raise instead of
  returning, when the winch it winds throws a function.)
\<close>

theorem superseded_reader_is_undefined:
  assumes "invalided (vars s) \<noteq> []" and "quiet es (cleanup s)"
  shows "spool (cells (fexec es (cleanup s))) = Undefined
       \<and> latest (cells (fexec es (cleanup s))) = latest (cells s)
       \<and> (\<not> accepted (Read w) (fexec es (cleanup s)) \<and> (\<forall>f call. snd w \<noteq> Some (Fn f call))
            \<longrightarrow> snd (fetched w (fexec es (cleanup s))) = Inr Undefined)
       \<and> (\<not> accepted (Read w) (fexec es (cleanup s))
            \<longrightarrow> (\<forall>v. snd (fetched w (fexec es (cleanup s))) = Inr v \<longrightarrow> v = Undefined))
       \<and> (\<not> init (vars (fexec es (cleanup s)))
            \<longrightarrow> snd (fetched w (fexec es (cleanup s))) = Inr Undefined)"
proof -
  define t where "t = fexec es (cleanup s)"
  have c: "spool (cells (cleanup s)) = Undefined"
    using assms(1) by (simp add: spool_cleanup)
  from quiet_exec [OF c assms(2)]
  have a: "spool (cells t) = Undefined" and b: "latest (cells t) = latest (cells s)"
    unfolding t_def by (simp_all add: latest_cleanup)
  have d: "\<not> accepted (Read w) t \<longrightarrow> (\<forall>v. snd (fetched w t) = Inr v \<longrightarrow> v = Undefined)"
    using idle_fetched(1) [of w t] snd_fetched [of w t] a by auto
  have e: "\<not> init (vars t) \<longrightarrow> snd (fetched w t) = Inr Undefined"
    using a by (simp add: snd_fetched_eager)
  have f: "\<not> accepted (Read w) t \<and> (\<forall>f call. snd w \<noteq> Some (Fn f call))
           \<longrightarrow> snd (fetched w t) = Inr Undefined"
    using idle_fetched(1) [of w t] fetched_returns [of w t] a by auto
  show ?thesis
    using a b d e f unfolding t_def by blast
qed

text \<open>
  Claim C3 at a concrete input: a fetched signal that has committed 1 is rerun with a winch
  that throws at once.
\<close>

theorem synchronous_failure_is_contained_witness:
  "settled (fst (createFetched ([Num 1], None) Undefined False))
   \<and> invalided (vars (fst (createFetched ([Num 1], None) Undefined False))) \<noteq> []
   \<and> snd (run ([], Some (Val (Str ''boom''))) (fst (createFetched ([Num 1], None) Undefined False))) = None
   \<and> cells (fst (run ([], Some (Val (Str ''boom''))) (fst (createFetched ([Num 1], None) Undefined False))))
       = \<lparr>error = Str ''boom'', latest = Num 1, state = Errored, spool = Undefined\<rparr>
   \<and> settled (fst (run ([], Some (Val (Str ''boom''))) (fst (createFetched ([Num 1], None) Undefined False))))
   \<and> settled (fst (createFetched ([], None) Undefined True))
   \<and> settled (fst (computed ([], Some (Val (Str ''boom'')))
        (fst (createFetched ([], None) Undefined True))))
   \<and> cells (fst (computed ([], Some (Val (Str ''boom'')))
        (fst (createFetched ([], None) Undefined True))))
       = \<lparr>error = Str ''boom'', latest = Undefined, state = Errored, spool = Undefined\<rparr>"
proof -
  have a: "settled (fst (createFetched ([Num 1], None) Undefined False))"
    by (rule settled_createFetched) simp
  have b: "settled (fst (createFetched ([], None) Undefined True))"
    by (rule settled_createFetched) simp
  show ?thesis
    using a b
      synchronous_failure_is_contained
        [of "[]" "fst (createFetched ([Num 1], None) Undefined False)" "Str ''boom''"]
      synchronous_failure_is_contained
        [of "[]" "fst (createFetched ([], None) Undefined True)" "Str ''boom''"]
    by (simp add: fetch_eval)
qed

text \<open>
  Claim C9 at a concrete input: a fetched signal that has committed 42, its cleanup, then a
  late call of the superseded callback, a rerun that throws and another late call.
\<close>

theorem superseded_reader_is_undefined_witness:
  "invalided (vars (fst (createFetched ([Num 42], None) Undefined False))) \<noteq> []
   \<and> quiet [Commit 0 (Num 7), Rerun ([], Some (Val (Str ''x''))), Commit 0 (Num 8)]
        (cleanup (fst (createFetched ([Num 42], None) Undefined False)))
   \<and> spool (cells (fexec [Commit 0 (Num 7), Rerun ([], Some (Val (Str ''x''))), Commit 0 (Num 8)]
        (cleanup (fst (createFetched ([Num 42], None) Undefined False))))) = Undefined
   \<and> latest (cells (fexec [Commit 0 (Num 7), Rerun ([], Some (Val (Str ''x''))), Commit 0 (Num 8)]
        (cleanup (fst (createFetched ([Num 42], None) Undefined False))))) = Num 42
   \<and> snd (fetched ([], None) (fexec [Commit 0 (Num 7), Rerun ([], Some (Val (Str ''x''))), Commit 0 (Num 8)]
        (cleanup (fst (createFetched ([Num 42], None) Undefined False))))) = Inr Undefined"
proof -
  let ?s = "fst (createFetched ([Num 42], None) Undefined False)"
  let ?es = "[Commit 0 (Num 7), Rerun ([], Some (Val (Str ''x''))), Commit 0 (Num 8)]"
  have a: "invalided (vars ?s) \<noteq> []"
    by (simp add: createFetched_def invalided_computed)
  have i: "invalided (vars (cleanup ?s)) = [True]"
    by (simp add: invalided_cleanup createFetched_def invalided_computed)
  have b: "quiet ?es (cleanup ?s)"
    by (simp add: i stale_def invalided_run)
  have l: "latest (cells ?s) = Num 42"
    by (simp add: fetch_eval)
  have n: "\<not> init (vars (fexec ?es (cleanup ?s)))"
    by (simp add: fetch_eval)
  show ?thesis
    using a b l n superseded_reader_is_undefined [OF a b, of "([], None)"] by simp
qed

section \<open>Properties of quantum\<close>

lemma uncount_funpow: "(uncount ^^ n) q = q\<lparr>microtasks := microtasks q + n\<rparr>"
  by (induction n) (simp_all add: uncount_def)

lemma cleanups_eq:
  "cleanups l q = q\<lparr>registered := filter (\<lambda>x. x \<noteq> l) (registered q),
                    microtasks := microtasks q + length (filter (\<lambda>x. x = l) (registered q))\<rparr>"
  by (simp add: cleanups_def uncount_funpow)

lemma qread_untracked: "quantum source track None q = (q, source (world q))"
  by (simp add: quantum_def)

lemma activations_simps [simp]:
  "activations [] = 0" "activations (w @ [Activate]) = Suc (activations w)"
  "activations (w @ [Deactivate]) = activations w"
  by (simp_all add: activations_def)

lemma deactivations_simps [simp]:
  "deactivations [] = 0" "deactivations (w @ [Activate]) = deactivations w"
  "deactivations (w @ [Deactivate]) = Suc (deactivations w)"
  by (simp_all add: deactivations_def)

lemma qinvI:
  "counter q = int (microtasks q + length (registered q)) \<Longrightarrow>
   dispose q = (if counter q = 0 then None else Some (\<lambda>w. w @ [Deactivate])) \<Longrightarrow>
   activations (world q) = deactivations (world q) + (if counter q = 0 then 0 else 1) \<Longrightarrow> qinv q"
  by (simp add: qinv_def)

lemma qinv_counter: "qinv q \<Longrightarrow> counter q = int (microtasks q + length (registered q))"
  by (simp add: qinv_def)

lemma qinv_dispose:
  "qinv q \<Longrightarrow> dispose q = (if counter q = 0 then None else Some (\<lambda>w. w @ [Deactivate]))"
  by (simp add: qinv_def)

lemma qinv_world:
  "qinv q \<Longrightarrow> activations (world q) = deactivations (world q) + (if counter q = 0 then 0 else 1)"
  by (simp add: qinv_def)

lemma qinv_init: "qinv (quantum_init [])"
  by (simp add: qinv_def quantum_init_def)

lemma count_logged:
  "count logged q = (if counter q = 0
     then q\<lparr>dispose := Some (\<lambda>w. w @ [Deactivate]), world := world q @ [Activate], counter := 1\<rparr>
     else q\<lparr>counter := counter q + 1\<rparr>)"
  by (simp add: count_def logged_def Let_def)

lemma qinv_read: "qinv q \<Longrightarrow> qinv (fst (quantum source logged listener q))"
proof (cases listener)
  case None
  assume "qinv q"
  then show ?thesis using None by (simp add: quantum_def)
next
  case (Some l)
  assume a: "qinv q"
  note c = qinv_counter [OF a] and d = qinv_dispose [OF a] and w = qinv_world [OF a]
  have nn: "0 \<le> counter q" using c by simp
  show ?thesis
  proof (cases "counter q = 0")
    case True
    with c have "int (microtasks q) + int (length (registered q)) = 0" by simp
    then have "microtasks q = 0" "length (registered q) = 0" by linarith+
    then have "microtasks q = 0" "registered q = []" by simp_all
    then show ?thesis
      using Some True w by (intro qinvI) (simp_all add: quantum_def count_logged onCleanup_def)
  next
    case False
    with nn have "counter q + 1 \<noteq> 0" by arith
    then show ?thesis
      using Some False c d w by (intro qinvI) (simp_all add: quantum_def count_logged onCleanup_def)
  qed
qed

lemma qinv_cleanups: "qinv q \<Longrightarrow> qinv (cleanups l q)"
proof -
  assume a: "qinv q"
  note c = qinv_counter [OF a] and d = qinv_dispose [OF a] and w = qinv_world [OF a]
  have "length (filter (\<lambda>x. x = l) (registered q)) + length (filter (\<lambda>x. x \<noteq> l) (registered q))
        = length (registered q)"
    using sum_length_filter_compl [of "\<lambda>x. x = l" "registered q"] by simp
  then have "counter q = int (microtasks q + length (filter (\<lambda>x. x = l) (registered q))
                  + length (filter (\<lambda>x. x \<noteq> l) (registered q)))"
    using c by (simp add: add.assoc)
  then show ?thesis
    using d w unfolding cleanups_eq by (intro qinvI) simp_all
qed

lemma qinv_microtask: "qinv q \<Longrightarrow> qinv (microtask q)"
proof (cases "microtasks q = 0")
  case True
  assume "qinv q"
  then show ?thesis using True by (simp add: microtask_def)
next
  case False
  assume a: "qinv q"
  note c = qinv_counter [OF a] and d = qinv_dispose [OF a] and w = qinv_world [OF a]
  have ne: "counter q \<noteq> 0" using c False by simp
  show ?thesis
  proof (cases "counter q = 1")
    case True
    with c have "int (microtasks q) + int (length (registered q)) = 1" by simp
    with False have "length (registered q) = 0" "microtasks q = Suc 0" by linarith+
    then have r: "registered q = []" "microtasks q = Suc 0" by simp_all
    show ?thesis
      using True r d w by (intro qinvI) (simp_all add: microtask_def uncounted_def Let_def)
  next
    case n1: False
    have "counter q - 1 = int (microtasks q - 1 + length (registered q))"
      using c False by simp
    then show ?thesis
      using n1 ne False d w by (intro qinvI) (simp_all add: microtask_def uncounted_def Let_def)
  qed
qed

lemma qinv_qstep: "qinv q \<Longrightarrow> qinv (qstep source logged e q)"
  by (cases e) (simp_all add: qinv_read qinv_cleanups qinv_microtask)

lemma qinv_qexec: "qinv q \<Longrightarrow> qinv (qexec source logged es q)"
  unfolding qexec_def by (induction es arbitrary: q) (simp_all add: qinv_qstep)

lemma qinv_reachable: "qinv (qexec source logged es (quantum_init []))"
  by (rule qinv_qexec) (rule qinv_init)

lemma qinv_funpow_microtask: "qinv q \<Longrightarrow> qinv ((microtask ^^ n) q)"
  by (induction n) (simp_all add: qinv_microtask)

lemma qinv_drain: "qinv q \<Longrightarrow> qinv (drain q)"
  by (simp add: drain_def qinv_funpow_microtask)

subsection \<open>One event\<close>

lemma activations_qstep:
  assumes "qinv q"
  shows "activations (world (qstep source logged e q))
       = activations (world q) + (if (\<exists>l. e = QRead (Some l)) \<and> counter q = 0 then 1 else 0)"
proof (cases e)
  case (QRead listener)
  then show ?thesis
    by (cases listener) (simp_all add: quantum_def count_logged onCleanup_def)
next
  case (QCleanup l)
  then show ?thesis by (simp add: cleanups_eq)
next
  case QMicrotask
  then show ?thesis
    using qinv_dispose [OF assms] by (simp add: microtask_def uncounted_def Let_def)
qed


subsection \<open>A synchronous pass\<close>

lemma sync_step:
  assumes "e \<noteq> QMicrotask"
  shows "deactivations (world (qstep source logged e q)) = deactivations (world q)"
    and "counter q \<le> counter (qstep source logged e q)"
    and "counter q \<noteq> 0 \<Longrightarrow> world (qstep source logged e q) = world q"
proof -
  show "deactivations (world (qstep source logged e q)) = deactivations (world q)"
  proof (cases e)
    case (QRead listener)
    then show ?thesis
      by (cases listener) (simp_all add: quantum_def count_logged onCleanup_def)
  qed (use assms in \<open>simp_all add: cleanups_eq\<close>)
  show "counter q \<le> counter (qstep source logged e q)"
  proof (cases e)
    case (QRead listener)
    then show ?thesis
      by (cases listener) (simp_all add: quantum_def count_logged onCleanup_def)
  qed (use assms in \<open>simp_all add: cleanups_eq\<close>)
  show "counter q \<noteq> 0 \<Longrightarrow> world (qstep source logged e q) = world q"
  proof (cases e)
    case (QRead listener)
    assume "counter q \<noteq> 0"
    then show ?thesis
      using QRead by (cases listener) (simp_all add: quantum_def count_logged onCleanup_def)
  qed (use assms in \<open>simp_all add: cleanups_eq\<close>)
qed

lemma sync_pass_facts:
  "qinv q \<Longrightarrow> sync_pass es \<Longrightarrow>
   deactivations (world (qexec source logged es q)) = deactivations (world q)
   \<and> counter q \<le> counter (qexec source logged es q)
   \<and> (counter q \<noteq> 0 \<longrightarrow> world (qexec source logged es q) = world q)"
  unfolding qexec_def sync_pass_def
proof (induction es arbitrary: q)
  case Nil
  then show ?case by simp
next
  case (Cons e es)
  let ?q1 = "qstep source logged e q"
  have e: "e \<noteq> QMicrotask" and es: "QMicrotask \<notin> set es"
    using Cons.prems(2) by auto
  have i: "qinv ?q1"
    using Cons.prems(1) by (rule qinv_qstep)
  have nn: "0 \<le> counter q"
    using qinv_counter [OF Cons.prems(1)] by simp
  note s = sync_step [OF e, where source = source and q = q]
  note ih = Cons.IH [OF i es]
  have "counter q \<noteq> 0 \<Longrightarrow> counter ?q1 \<noteq> 0"
    using s(2) nn by arith
  then show ?case
    using s ih by auto
qed

lemma pass_activations:
  assumes "qinv q" "sync_pass es"
  shows "activations (world (qexec source logged es q)) \<le> activations (world q) + 1"
proof -
  let ?q' = "qexec source logged es q"
  have i: "qinv ?q'"
    using assms(1) by (rule qinv_qexec)
  have "deactivations (world ?q') = deactivations (world q)"
    using sync_pass_facts [OF assms, where source = source] by simp
  then show ?thesis
    using qinv_world [OF i] qinv_world [OF assms(1)] by (simp split: if_splits)
qed

subsection \<open>The microtasks\<close>

lemma microtask_frame:
  "registered (microtask q) = registered q" "microtasks (microtask q) = microtasks q - 1"
  by (simp_all add: microtask_def uncounted_def Let_def split: option.splits)

lemma funpow_microtask_frame:
  "registered ((microtask ^^ n) q) = registered q"
  "microtasks ((microtask ^^ n) q) = microtasks q - n"
  by (induction n) (simp_all add: microtask_frame)

lemma microtasks_drain: "microtasks (drain q) = 0"
  by (simp add: drain_def funpow_microtask_frame)

lemma activations_microtask: "qinv q \<Longrightarrow> activations (world (microtask q)) = activations (world q)"
  using activations_qstep [of q source QMicrotask] by simp

lemma activations_funpow: "qinv q \<Longrightarrow> activations (world ((microtask ^^ n) q)) = activations (world q)"
  by (induction n) (simp_all add: activations_microtask qinv_funpow_microtask)

lemma activations_drain: "qinv q \<Longrightarrow> activations (world (drain q)) = activations (world q)"
  by (simp add: drain_def activations_funpow)

lemma deactivations_drain:
  assumes "qinv q"
  shows "deactivations (world (drain q)) \<le> deactivations (world q) + 1"
  using qinv_world [OF qinv_drain [OF assms]] qinv_world [OF assms] activations_drain [OF assms]
  by (simp split: if_splits)

lemma world_microtask_attached:
  assumes "qinv q" "registered q \<noteq> []"
  shows "world (microtask q) = world q"
proof (cases "microtasks q = 0")
  case True
  then show ?thesis by (simp add: microtask_def)
next
  case False
  have "1 \<le> int (length (registered q))" "1 \<le> int (microtasks q)"
    using assms(2) False by (simp_all add: Suc_le_eq)
  moreover have "counter q = int (microtasks q) + int (length (registered q))"
    using qinv_counter [OF assms(1)] by simp
  ultimately have "counter q - 1 \<noteq> 0"
    by linarith
  then show ?thesis
    using False by (simp add: microtask_def uncounted_def Let_def)
qed

lemma world_funpow_attached:
  "qinv q \<Longrightarrow> registered q \<noteq> [] \<Longrightarrow> world ((microtask ^^ n) q) = world q"
proof (induction n)
  case 0
  then show ?case by simp
next
  case (Suc n)
  have "world (microtask ((microtask ^^ n) q)) = world ((microtask ^^ n) q)"
    using Suc.prems by (intro world_microtask_attached) (simp_all add: qinv_funpow_microtask funpow_microtask_frame)
  then show ?case
    using Suc by simp
qed

lemma world_drain_attached: "qinv q \<Longrightarrow> registered q \<noteq> [] \<Longrightarrow> world (drain q) = world q"
  by (simp add: drain_def world_funpow_attached)

lemma microtask_to_zero:
  assumes "qinv q" "microtasks q \<noteq> 0"
  shows "world (microtask q) = (if counter q = 1 then world q @ [Deactivate] else world q)"
  using qinv_dispose [OF assms(1)] assms(2)
  by (simp add: microtask_def uncounted_def Let_def)

text \<open>
  Claim C4. Let \<open>q\<close> be any state a demand counter can reach from its creation, \<open>q'\<close> the
  state after a synchronous pass \<open>es\<close> of reads and cleanups, and \<open>q''\<close> the state after the
  microtasks queued so far have run. A cleanup decrements nothing and calls nothing: it
  queues one microtask per registration. In the pass \<open>track\<close> is called at most once and no
  disposal function is called; when the microtasks run, \<open>track\<close> is not called and a disposal
  function is called at most once. If the counter was active before the pass and a consumer
  is attached at its end, nothing is called at all. A queued decrement calls the disposal
  function, once, exactly when it takes the counter from one to zero.
\<close>

theorem deferred_decrement_no_thrashing:
  assumes "sync_pass es"
  shows "(let q = qexec source logged es0 (quantum_init []);
              q' = qexec source logged es q;
              q'' = drain q'
          in (counter (cleanups l q) = counter q \<and> dispose (cleanups l q) = dispose q
              \<and> world (cleanups l q) = world q
              \<and> microtasks (cleanups l q) = microtasks q + length (filter (\<lambda>x. x = l) (registered q)))
           \<and> activations (world q') \<le> activations (world q) + 1
           \<and> deactivations (world q') = deactivations (world q)
           \<and> activations (world q'') = activations (world q')
           \<and> deactivations (world q'') \<le> deactivations (world q') + 1
           \<and> (counter q \<noteq> 0 \<and> registered q' \<noteq> [] \<longrightarrow> world q'' = world q)
           \<and> microtasks q'' = 0
           \<and> (microtasks q \<noteq> 0 \<longrightarrow>
                world (microtask q) = (if counter q = 1 then world q @ [Deactivate] else world q)))"
proof -
  define q where "q = qexec source logged es0 (quantum_init [])"
  define q' where "q' = qexec source logged es q"
  have i: "qinv q"
    unfolding q_def by (rule qinv_reachable)
  have i': "qinv q'"
    unfolding q'_def using i by (rule qinv_qexec)
  note p = sync_pass_facts [OF i assms, where source = source, folded q'_def]
  have a: "counter (cleanups l q) = counter q \<and> dispose (cleanups l q) = dispose q
           \<and> world (cleanups l q) = world q
           \<and> microtasks (cleanups l q) = microtasks q + length (filter (\<lambda>x. x = l) (registered q))"
    by (simp add: cleanups_eq)
  have b: "activations (world q') \<le> activations (world q) + 1"
    unfolding q'_def using i assms by (rule pass_activations)
  have c: "deactivations (world q') = deactivations (world q)"
    using p by simp
  have d: "activations (world (drain q')) = activations (world q')"
    using i' by (rule activations_drain)
  have e: "deactivations (world (drain q')) \<le> deactivations (world q') + 1"
    using i' by (rule deactivations_drain)
  have f: "counter q \<noteq> 0 \<and> registered q' \<noteq> [] \<longrightarrow> world (drain q') = world q"
    using p world_drain_attached [OF i'] by simp
  have g: "microtasks (drain q') = 0"
    by (rule microtasks_drain)
  have h: "microtasks q \<noteq> 0 \<longrightarrow>
           world (microtask q) = (if counter q = 1 then world q @ [Deactivate] else world q)"
    using microtask_to_zero [OF i] by blast
  show ?thesis
    using a b c d e f g h unfolding Let_def q'_def q_def by blast
qed

lemma qstep_init:
  "(\<forall>l. e \<noteq> QRead (Some l)) \<Longrightarrow> qstep source track e (quantum_init w) = quantum_init w"
proof (cases e)
  case (QRead listener)
  assume "\<forall>l. e \<noteq> QRead (Some l)"
  then show ?thesis
    using QRead by (cases listener) (simp_all add: quantum_def Let_def)
qed (simp_all add: cleanups_eq microtask_def quantum_init_def)

lemma qexec_init:
  "(\<forall>l. QRead (Some l) \<notin> set es) \<Longrightarrow> qexec source track es (quantum_init w) = quantum_init w"
  unfolding qexec_def
proof (induction es)
  case Nil
  then show ?case by simp
next
  case (Cons e es)
  then have "\<forall>l. e \<noteq> QRead (Some l)" by auto
  then have "qstep source track e (quantum_init w) = quantum_init w"
    by (rule qstep_init)
  then show ?case using Cons by simp
qed

text \<open>
  Claim C5. In any state \<open>q\<close> a demand counter can reach from its creation, an event calls
  \<open>track\<close> exactly when it is a read under a listener and the counter is zero, and then once.
  A counter that was never read under a listener has called nothing; when the counter is
  zero every activation has been undone; while a consumer is registered no read calls
  \<open>track\<close>; and a read under no listener returns the source's value and changes nothing.
\<close>

theorem activation_tracks_observation:
  "(let q = qexec source logged es (quantum_init [])
    in activations (world (qstep source logged e q))
         = activations (world q) + (if (\<exists>l. e = QRead (Some l)) \<and> counter q = 0 then 1 else 0)
     \<and> ((\<forall>l. QRead (Some l) \<notin> set es) \<longrightarrow> world q = [])
     \<and> (counter q = 0 \<longrightarrow> activations (world q) = deactivations (world q))
     \<and> (registered q \<noteq> [] \<longrightarrow>
          activations (world (fst (quantum source logged listener q))) = activations (world q))
     \<and> quantum source logged None q = (q, source (world q)))"
proof -
  define q where "q = qexec source logged es (quantum_init [])"
  have i: "qinv q"
    unfolding q_def by (rule qinv_reachable)
  have a: "activations (world (qstep source logged e q))
         = activations (world q) + (if (\<exists>l. e = QRead (Some l)) \<and> counter q = 0 then 1 else 0)"
    using i by (rule activations_qstep)
  have b: "(\<forall>l. QRead (Some l) \<notin> set es) \<longrightarrow> world q = []"
    unfolding q_def using qexec_init [of es source logged "[]"] by (simp add: quantum_init_def)
  have c: "counter q = 0 \<longrightarrow> activations (world q) = deactivations (world q)"
    using qinv_world [OF i] by simp
  have d: "registered q \<noteq> [] \<longrightarrow>
          activations (world (fst (quantum source logged listener q))) = activations (world q)"
  proof
    assume "registered q \<noteq> []"
    then have "1 \<le> int (length (registered q))" by (simp add: Suc_le_eq)
    moreover have "counter q = int (microtasks q) + int (length (registered q))"
      using qinv_counter [OF i] by simp
    ultimately have "counter q \<noteq> 0" by linarith
    then show "activations (world (fst (quantum source logged listener q))) = activations (world q)"
      using activations_qstep [OF i, of source "QRead listener"] by simp
  qed
  have e: "quantum source logged None q = (q, source (world q))"
    by (rule qread_untracked)
  show ?thesis
    using a b c d e unfolding Let_def q_def by blast
qed


lemmas quantum_defs =
  qexec_def quantum_def count_def logged_def onCleanup_def cleanups_def uncount_def
  microtask_def uncounted_def drain_def quantum_init_def sync_pass_def
  activations_def deactivations_def Let_def

text \<open>
  Claim C4 at a concrete input: computation 1 has read the accessor; in one pass it is
  cleaned up and reads again, and then the microtask runs.
\<close>

theorem deferred_decrement_no_thrashing_witness:
  "sync_pass [QCleanup 1, QRead (Some 1)]
   \<and> world (qexec length logged [QRead (Some 1)] (quantum_init [])) = [Activate]
   \<and> microtasks (qexec length logged [QCleanup 1, QRead (Some 1)]
        (qexec length logged [QRead (Some 1)] (quantum_init []))) = 1
   \<and> world (drain (qexec length logged [QCleanup 1, QRead (Some 1)]
        (qexec length logged [QRead (Some 1)] (quantum_init [])))) = [Activate]"
  using deferred_decrement_no_thrashing
          [where es = "[QCleanup 1, QRead (Some 1)]" and source = length
             and ?es0.0 = "[QRead (Some 1)]" and l = 1]
  by (simp add: quantum_defs)

text \<open>
  Claim C5 at concrete inputs: a counter that was only read outside a computation, and a
  read by computation 5 while computation 2 is registered.
\<close>

theorem activation_tracks_observation_witness:
  "(\<forall>l. QRead (Some l) \<notin> set [QRead None, QCleanup 3, QMicrotask])
   \<and> world (qexec length logged [QRead None, QCleanup 3, QMicrotask] (quantum_init [])) = []
   \<and> registered (qexec length logged [QRead (Some 2)] (quantum_init [])) \<noteq> []
   \<and> world (fst (quantum length logged (Some 5) (qexec length logged [QRead (Some 2)] (quantum_init []))))
       = [Activate]"
  using activation_tracks_observation
          [where source = length and e = "QRead None" and listener = None
             and es = "[QRead None, QCleanup 3, QMicrotask]"]
        activation_tracks_observation
          [where source = length and e = "QRead None" and listener = "Some 5"
             and es = "[QRead (Some 2)]"]
  by (simp add: quantum_defs)


section \<open>Properties of createSubscription\<close>

lemma consistent_frame [simp]:
  "consistent (w\<lparr>vars := v\<rparr>) = consistent w" "consistent (w\<lparr>depth := d\<rparr>) = consistent w"
  "consistent (w\<lparr>dirty := b\<rparr>) = consistent w"
  by (simp_all add: consistent_def)

lemma consistent_writeSignal:
  "consistent w \<Longrightarrow> (memo_ok (cells w) \<Longrightarrow> memo_ok (u (cells w))) \<Longrightarrow> consistent (writeSignal b u w)"
  by (simp add: consistent_def writeSignal_def Let_def)

lemma consistent_batch:
  "consistent w \<Longrightarrow> (\<And>w. consistent w \<Longrightarrow> consistent (fn w)) \<Longrightarrow> consistent (batch fn w)"
proof -
  assume a: "consistent w" and f: "\<And>w. consistent w \<Longrightarrow> consistent (fn w)"
  have "consistent (fn (w\<lparr>depth := Suc (depth w)\<rparr>))"
    using a by (intro f) simp
  then show ?thesis
    by (simp add: batch_def Let_def) (simp add: consistent_def)
qed

lemma memo_ok_memo [simp]: "memo_ok (memo c)"
  by (simp add: memo_ok_def memo_def)

lemma consistent_setLocal: "consistent w \<Longrightarrow> consistent (setLocal v w)"
  by (simp add: setLocal_def consistent_writeSignal)

lemma consistent_setCache: "consistent w \<Longrightarrow> consistent (setCache v w)"
  by (simp add: setCache_def consistent_writeSignal)

lemma consistent_setSubscribed: "consistent w \<Longrightarrow> consistent (setSubscribed b w)"
  unfolding setSubscribed_def by (rule consistent_writeSignal) (simp_all add: memo_ok_def)

lemma consistent_updateFromRemote: "consistent w \<Longrightarrow> consistent (updateFromRemote rc x w)"
  unfolding updateFromRemote_def
  by (rule consistent_batch) (simp_all add: Let_def consistent_setLocal consistent_setCache)

lemma consistent_setter: "consistent w \<Longrightarrow> consistent (setter a w)"
  by (simp add: setter_def Let_def consistent_setLocal)

lemma consistent_pull: "consistent w \<Longrightarrow> consistent (pull rc g w)"
  by (cases g) (simp_all add: pull_def consistent_updateFromRemote)

lemma consistent_resolved: "consistent w \<Longrightarrow> consistent (resolved rc x w)"
  by (simp add: resolved_def consistent_updateFromRemote)

lemma consistent_push: "consistent w \<Longrightarrow> consistent (push w)"
  by (simp add: push_def)

lemma consistent_unsubscribe: "consistent w \<Longrightarrow> consistent (unsubscribe w)"
  by (simp add: unsubscribe_def Let_def consistent_setSubscribed)

lemma consistent_feed:
  "consistent w \<Longrightarrow> consistent (foldl (\<lambda>w x. updateFromRemote rc x w) w feed)"
  by (induction feed arbitrary: w) (simp_all add: consistent_updateFromRemote)

lemma subscribe_eq:
  "subscribe rc feed w
   = (unsubscribe,
      setSubscribed True
        (foldl (\<lambda>w x. updateFromRemote rc x w) (w\<lparr>vars := (vars w)\<lparr>subs := Suc (subs (vars w))\<rparr>\<rparr>) feed))"
  by (simp add: subscribe_def Let_def)

lemma consistent_subscribe: "consistent w \<Longrightarrow> consistent (snd (subscribe rc feed w))"
  by (simp add: subscribe_eq consistent_setSubscribed consistent_feed)

lemma sinv_in_world: "sinv q \<Longrightarrow> (consistent (world q) \<Longrightarrow> consistent (f (world q))) \<Longrightarrow> sinv (in_world f q)"
  by (simp add: sinv_def in_world_def)

lemma sinv_count: "sinv q \<Longrightarrow> sinv (count (subscribe rc feed) q)"
  using consistent_subscribe [of "world q" rc feed]
  by (auto simp add: sinv_def count_def Let_def subscribe_eq)

lemma sinv_read: "sinv q \<Longrightarrow> sinv (fst (quantum source (subscribe rc feed) listener q))"
proof (cases listener)
  case None
  assume "sinv q"
  then show ?thesis using None by (simp add: quantum_def)
next
  case (Some l)
  assume "sinv q"
  then have "sinv (count (subscribe rc feed) q)" by (rule sinv_count)
  then show ?thesis
    using Some by (simp add: quantum_def onCleanup_def Let_def sinv_def)
qed

lemma sinv_cleanups: "sinv q \<Longrightarrow> sinv (cleanups l q)"
  by (simp add: sinv_def cleanups_eq)

lemma sinv_microtask: "sinv q \<Longrightarrow> sinv (microtask q)"
  by (auto simp add: sinv_def microtask_def uncounted_def Let_def consistent_unsubscribe)

lemma sinv_sstep: "sinv q \<Longrightarrow> sinv (sstep rc e q)"
  by (cases e)
     (simp_all add: sinv_read sinv_cleanups sinv_microtask sinv_in_world consistent_setter
        consistent_pull consistent_resolved consistent_push consistent_updateFromRemote)

lemma sinv_sexec: "sinv q \<Longrightarrow> sinv (sexec rc es q)"
  unfolding sexec_def by (induction es arbitrary: q) (simp_all add: sinv_sstep)

lemma sinv_create: "sinv (createSubscription initial)"
  by (simp add: sinv_def createSubscription_def quantum_init_def consistent_def)

lemmas subscription_defs =
  createSubscription_def quantum_init_def sexec_def in_world_def pull_def resolved_def push_def
  setter_def updateFromRemote_def reconciled_def setLocal_def setCache_def setSubscribed_def
  memo_def batch_def writeSignal_def strict_eq_def Let_def

lemma cells_setLocal: "cells (setLocal v s) = memo ((cells s)\<lparr>local := v\<rparr>) \<or> cells (setLocal v s) = cells s \<and> local (cells s) = v"
  by (auto simp add: setLocal_def writeSignal_def Let_def strict_eq_def)

lemma local_setLocal [simp]: "local (cells (setLocal v s)) = v"
  by (auto simp add: setLocal_def writeSignal_def Let_def strict_eq_def memo_def)

lemma cache_setLocal [simp]: "cache (cells (setLocal v s)) = cache (cells s)"
  by (auto simp add: setLocal_def writeSignal_def Let_def strict_eq_def memo_def)

lemma local_setCache [simp]: "local (cells (setCache v s)) = local (cells s)"
  by (auto simp add: setCache_def writeSignal_def Let_def strict_eq_def memo_def)

lemma cache_setCache [simp]: "cache (cells (setCache v s)) = v"
  by (auto simp add: setCache_def writeSignal_def Let_def strict_eq_def memo_def)

lemma frame_setLocal [simp]:
  "vars (setLocal v s) = vars s" "depth (setLocal v s) = depth s"
  by (simp_all add: setLocal_def writeSignal_def Let_def)

lemma frame_setCache [simp]:
  "vars (setCache v s) = vars s" "depth (setCache v s) = depth s"
  by (simp_all add: setCache_def writeSignal_def Let_def)

lemma passes_inner_setLocal: "depth s \<noteq> 0 \<Longrightarrow> passes (setLocal v s) = passes s"
  by (simp add: setLocal_def writeSignal_def Let_def)

lemma passes_inner_setCache: "depth s \<noteq> 0 \<Longrightarrow> passes (setCache v s) = passes s"
  by (simp add: setCache_def writeSignal_def Let_def)

lemma reconciled_frame [simp]:
  "reconciled rc remote (s\<lparr>depth := d\<rparr>) = reconciled rc remote s"
  "reconciled rc remote (s\<lparr>vars := v\<rparr>) = reconciled rc remote s"
  by (cases rc; simp add: reconciled_def)+

lemma ufr_eq:
  "updateFromRemote rc remote s
   = batch (\<lambda>s. setCache (reconciled rc remote s)
                  (setLocal (reconciled rc remote s) (s\<lparr>vars := (vars s)\<lparr>hasLocal := True\<rparr>\<rparr>))) s"
  by (simp add: updateFromRemote_def Let_def)

lemma cells_ufr:
  "local (cells (updateFromRemote rc remote s)) = reconciled rc remote s"
  "cache (cells (updateFromRemote rc remote s)) = reconciled rc remote s"
  "hasLocal (vars (updateFromRemote rc remote s))"
  by (simp_all add: ufr_eq batch_def Let_def)

lemma settled_ufr:
  assumes "settled s"
  shows "settled (updateFromRemote rc remote s)"
    and "passes (updateFromRemote rc remote s) = passes s
         \<or> passes (updateFromRemote rc remote s) = cells (updateFromRemote rc remote s) # passes s"
  using assms
  by (simp_all add: ufr_eq batch_def Let_def settled_def passes_inner_setLocal passes_inner_setCache)

lemma memo_ok_setLocal: "memo_ok (cells s) \<Longrightarrow> memo_ok (cells (setLocal v s))"
  by (simp add: setLocal_def writeSignal_def Let_def)

lemma memo_ok_setCache: "memo_ok (cells s) \<Longrightarrow> memo_ok (cells (setCache v s))"
  by (simp add: setCache_def writeSignal_def Let_def)

lemma memo_ok_ufr: "memo_ok (cells s) \<Longrightarrow> memo_ok (cells (updateFromRemote rc remote s))"
  by (simp add: ufr_eq batch_def Let_def memo_ok_setLocal memo_ok_setCache)

lemma detached_ufr:
  assumes "memo_ok (cells s)"
  shows "detached (cells (updateFromRemote rc remote s)) = (reconciled rc remote s = NaN)"
  using memo_ok_ufr [OF assms, of rc remote]
  by (simp add: memo_ok_def cells_ufr strict_eq_def)

text \<open>
  Claim C6 says that \<open>detached()\<close> is \<open>local !== cache\<close> at all times and that therefore
  \<open>detached()\<close> is false right after \<open>pull()\<close>. The second does not follow: when the pulled
  value is \<open>NaN\<close>, \<open>local\<close> and \<open>cache\<close> both hold it and \<open>detached()\<close> is true, since
  \<open>NaN !== NaN\<close>.
\<close>

theorem pull_of_NaN_is_detached:
  "local (cells (world (sexec None [SPull (Now NaN)] (createSubscription Undefined)))) = NaN
   \<and> cache (cells (world (sexec None [SPull (Now NaN)] (createSubscription Undefined)))) = NaN
   \<and> detached (cells (world (sexec None [SPull (Now NaN)] (createSubscription Undefined)))) = True"
  by (simp add: subscription_defs)

text \<open>
  Claim C6, amended. In every state a subscription can reach from its creation, the memo
  \<open>detached\<close> is \<open>local !== cache\<close>, and it was so in every notification pass the observers
  have seen. After \<open>pull()\<close> has applied a remote value (at once, or when the promise
  resolves) \<open>detached()\<close> is false unless the reconciled value is \<open>NaN\<close>, and then it is true.
\<close>

theorem detached_is_local_differs_from_cache:
  "(let w = world (sexec rc es (createSubscription initial))
    in detached (cells w) = (\<not> strict_eq (local (cells w)) (cache (cells w)))
     \<and> list_all (\<lambda>c. detached c = (\<not> strict_eq (local c) (cache c))) (passes w)
     \<and> detached (cells (pull rc (Now remote) w)) = (reconciled rc remote w = NaN)
     \<and> detached (cells (resolved rc remote w)) = (reconciled rc remote w = NaN))"
proof -
  define w where "w = world (sexec rc es (createSubscription initial))"
  have "sinv (sexec rc es (createSubscription initial))"
    by (rule sinv_sexec) (rule sinv_create)
  then have c: "consistent w"
    unfolding w_def by (simp add: sinv_def)
  then have m: "memo_ok (cells w)" and p: "list_all memo_ok (passes w)"
    by (simp_all add: consistent_def)
  have a: "detached (cells w) = (\<not> strict_eq (local (cells w)) (cache (cells w)))"
    using m by (simp add: memo_ok_def)
  have b: "list_all (\<lambda>c. detached c = (\<not> strict_eq (local c) (cache c))) (passes w)"
    using p by (simp add: memo_ok_def [abs_def])
  have d: "detached (cells (pull rc (Now remote) w)) = (reconciled rc remote w = NaN)"
    using detached_ufr [OF m] by (simp add: pull_def)
  have e: "detached (cells (resolved rc remote w)) = (reconciled rc remote w = NaN)"
    using detached_ufr [OF m] by (simp add: resolved_def)
  show ?thesis
    using a b d e unfolding Let_def w_def by blast
qed

text \<open>
  Claim C7. \<open>pull()\<close>, at once or when the promise resolves, applies \<open>updateFromRemote\<close>: the
  reconciled value is \<open>handler.reconcile(remote, local, cache)\<close> on the current \<open>local\<close> and
  \<open>cache\<close>, or the remote value itself without a \<open>reconcile\<close>; \<open>local\<close> and \<open>cache\<close> both
  become the reconciled value, \<open>hasLocal\<close> is set, and outside a batch the writes make at most
  one notification pass, which shows them together. Without \<open>reconcile\<close>: after 5 is
  written to the subscription, \<open>detached()\<close> is true; after a pull of 9, \<open>local\<close> and \<open>cache\<close>
  are 9 and \<open>detached()\<close> is false.
\<close>

theorem pull_sets_local_and_cache:
  "(let r = reconciled rc remote s; s' = updateFromRemote rc remote s
    in pull rc (Now remote) s = s' \<and> resolved rc remote s = s'
     \<and> r = (case rc of Some f \<Rightarrow> f remote (local (cells s)) (cache (cells s)) | None \<Rightarrow> remote)
     \<and> local (cells s') = r \<and> cache (cells s') = r \<and> hasLocal (vars s')
     \<and> (settled s \<longrightarrow> settled s' \<and> (passes s' = passes s \<or> passes s' = cells s' # passes s)))
   \<and> (let q1 = sexec None [SWrite (Plain (Num 5))] (createSubscription Undefined);
           q2 = sexec None [SPull (Now (Num 9))] q1;
           q3 = sexec None [SPull Promised, SResolved (Num 9)] q1
       in local (cells (world q1)) = Num 5 \<and> detached (cells (world q1))
        \<and> local (cells (world q2)) = Num 9 \<and> cache (cells (world q2)) = Num 9
        \<and> \<not> detached (cells (world q2))
        \<and> local (cells (world q3)) = Num 9 \<and> cache (cells (world q3)) = Num 9
        \<and> \<not> detached (cells (world q3)))"
proof -
  have a: "pull rc (Now remote) s = updateFromRemote rc remote s"
    "resolved rc remote s = updateFromRemote rc remote s"
    by (simp_all add: pull_def resolved_def)
  have b: "reconciled rc remote s
           = (case rc of Some f \<Rightarrow> f remote (local (cells s)) (cache (cells s)) | None \<Rightarrow> remote)"
    by (simp add: reconciled_def)
  have c: "settled s \<longrightarrow> settled (updateFromRemote rc remote s)
           \<and> (passes (updateFromRemote rc remote s) = passes s
              \<or> passes (updateFromRemote rc remote s) = cells (updateFromRemote rc remote s) # passes s)"
    using settled_ufr by blast
  have d: "(let q1 = sexec None [SWrite (Plain (Num 5))] (createSubscription Undefined);
           q2 = sexec None [SPull (Now (Num 9))] q1;
           q3 = sexec None [SPull Promised, SResolved (Num 9)] q1
       in local (cells (world q1)) = Num 5 \<and> detached (cells (world q1))
        \<and> local (cells (world q2)) = Num 9 \<and> cache (cells (world q2)) = Num 9
        \<and> \<not> detached (cells (world q2))
        \<and> local (cells (world q3)) = Num 9 \<and> cache (cells (world q3)) = Num 9
        \<and> \<not> detached (cells (world q3)))"
    by (simp add: subscription_defs)
  show ?thesis
    using a b c d cells_ufr [of rc remote s] unfolding Let_def by blast
qed

subsection \<open>push and the initial value\<close>

lemma hasLocal_setSubscribed [simp]: "hasLocal (vars (setSubscribed b w)) = hasLocal (vars w)"
  by (simp add: setSubscribed_def writeSignal_def Let_def)

lemma hasLocal_unsubscribe [simp]: "hasLocal (vars (unsubscribe w)) = hasLocal (vars w)"
  by (simp add: unsubscribe_def Let_def)

lemma hasLocal_push [simp]: "hasLocal (vars (push w)) = hasLocal (vars w)"
  by (simp add: push_def)

lemma hasLocal_sstep:
  assumes "sinv q" "\<not> initialises e"
  shows "hasLocal (vars (world (sstep rc e q))) = hasLocal (vars (world q))"
proof (cases e)
  case (SRead feed listener)
  then show ?thesis
    using assms(2)
    by (cases listener) (simp_all add: quantum_def count_def onCleanup_def subscribe_eq Let_def)
next
  case (SPull g)
  then show ?thesis
    using assms(2) by (cases g) (simp_all add: in_world_def pull_def)
next
  case SMicrotask
  have "dispose q = None \<or> dispose q = Some unsubscribe"
    using assms(1) by (simp add: sinv_def)
  then show ?thesis
    using SMicrotask by (auto simp add: microtask_def uncounted_def Let_def)
qed (use assms(2) in \<open>simp_all add: in_world_def cleanups_eq\<close>)

lemma hasLocal_sexec:
  "sinv q \<Longrightarrow> list_all (\<lambda>e. \<not> initialises e) es \<Longrightarrow>
   hasLocal (vars (world (sexec rc es q))) = hasLocal (vars (world q))"
  unfolding sexec_def
proof (induction es arbitrary: q)
  case Nil
  then show ?case by simp
next
  case (Cons e es)
  have "hasLocal (vars (world (sstep rc e q))) = hasLocal (vars (world q))"
    using Cons.prems by (intro hasLocal_sstep) simp_all
  moreover have "sinv (sstep rc e q)"
    using Cons.prems(1) by (rule sinv_sstep)
  ultimately show ?case
    using Cons.IH [of "sstep rc e q"] Cons.prems(2) by simp
qed

lemma push_uninitialised: "\<not> hasLocal (vars (world q)) \<Longrightarrow> sstep rc SPush q = q"
  by (simp add: in_world_def push_def)

lemma hasLocal_feed:
  "hasLocal (vars w) \<Longrightarrow> hasLocal (vars (foldl (\<lambda>w x. updateFromRemote rc x w) w feed))"
  by (induction feed arbitrary: w) (simp_all add: cells_ufr)

lemma hasLocal_kept:
  assumes "sinv q" "hasLocal (vars (world q))"
  shows "hasLocal (vars (world (sstep rc e q)))"
proof (cases e)
  case (SRead feed listener)
  then show ?thesis
    using assms(2)
    by (cases listener)
       (simp_all add: quantum_def count_def onCleanup_def subscribe_eq Let_def hasLocal_feed)
next
  case (SWrite a)
  then show ?thesis by (simp add: in_world_def setter_def Let_def)
next
  case (SPull g)
  then show ?thesis
    using assms(2) by (cases g) (simp_all add: in_world_def pull_def cells_ufr)
next
  case (SResolved x)
  then show ?thesis by (simp add: in_world_def resolved_def cells_ufr)
next
  case SPush
  then show ?thesis using assms(2) by (simp add: in_world_def)
next
  case (SFeed x)
  then show ?thesis by (simp add: in_world_def cells_ufr)
next
  case (SCleanup l)
  then show ?thesis using assms(2) by (simp add: cleanups_eq)
next
  case SMicrotask
  have "dispose q = None \<or> dispose q = Some unsubscribe"
    using assms(1) by (simp add: sinv_def)
  then show ?thesis
    using SMicrotask assms(2) by (auto simp add: microtask_def uncounted_def Let_def)
qed

lemma hasLocal_assigned: "assigns e \<Longrightarrow> hasLocal (vars (world (sstep rc e q)))"
proof (cases e)
  case (SPull g)
  assume "assigns e"
  then show ?thesis
    using SPull by (cases g) (simp_all add: in_world_def pull_def cells_ufr)
qed (simp_all add: in_world_def setter_def resolved_def cells_ufr Let_def)

lemma hasLocal_reached:
  "sinv q \<Longrightarrow> hasLocal (vars (world q)) \<or> list_ex assigns es \<Longrightarrow>
   hasLocal (vars (world (sexec rc es q)))"
  unfolding sexec_def
proof (induction es arbitrary: q)
  case Nil
  then show ?case by simp
next
  case (Cons e es)
  have i: "sinv (sstep rc e q)"
    using Cons.prems(1) by (rule sinv_sstep)
  have "hasLocal (vars (world (sstep rc e q))) \<or> list_ex assigns es"
    using Cons.prems hasLocal_kept [of q rc e] hasLocal_assigned [of e rc q] by auto
  with Cons.IH [OF i] show ?case
    by simp
qed

lemma push_noop_iff: "(push s = s) = (\<not> hasLocal (vars s))"
proof (cases "hasLocal (vars s)")
  case True
  have "sent (vars (push s)) \<noteq> sent (vars s)"
    using True by (simp add: push_def)
  then show ?thesis
    using True by auto
next
  case False
  then show ?thesis by (simp add: push_def)
qed

lemma push_initialised:
  "hasLocal (vars (world q)) \<Longrightarrow>
   sstep rc SPush q
   = q\<lparr>world := (world q)\<lparr>vars := (vars (world q))
          \<lparr>sent := sent (vars (world q)) @ [local (cells (world q))]\<rparr>\<rparr>\<rparr>"
  by (simp add: in_world_def push_def)

text \<open>
  Claim C8 says that \<open>push()\<close> is a no-op as long as no pull and no write has happened. It
  is not when the subscription was created with a truthy initial value: with initial value
  7, a \<open>push()\<close> right after creation sends 7 to \<open>handler.set\<close>.
\<close>

theorem push_with_truthy_initial_sends:
  "sent (vars (world (createSubscription (Num 7)))) = []
   \<and> sent (vars (world (sstep None SPush (createSubscription (Num 7))))) = [Num 7]
   \<and> sstep None SPush (createSubscription (Num 7)) \<noteq> createSubscription (Num 7)"
proof -
  have a: "sent (vars (world (createSubscription (Num 7)))) = []"
    by (simp add: createSubscription_def quantum_init_def)
  have b: "sent (vars (world (sstep None SPush (createSubscription (Num 7))))) = [Num 7]"
    by (simp add: createSubscription_def quantum_init_def in_world_def push_def memo_def)
  from a b have "sstep None SPush (createSubscription (Num 7)) \<noteq> createSubscription (Num 7)"
    by (metis list.distinct(1))
  with a b show ?thesis by blast
qed

text \<open>
  Claim C8, amended. \<open>push()\<close> is a no-op, with no state change at all, exactly while
  \<open>hasLocal\<close> is unset; otherwise its one effect is to send the current \<open>local\<close> to
  \<open>handler.set\<close>. In every case it leaves \<open>local\<close>, \<open>cache\<close>, the other signals and \<open>hasLocal\<close>
  as they are and notifies no observer. On a subscription, \<open>hasLocal\<close> is unset, and
  \<open>push()\<close> a no-op, when the initial value was falsy or absent and since then nothing was
  written and no remote value was applied, by \<open>pull()\<close> or by the live feed; it is set, and
  \<open>push()\<close> sends, when the initial value was truthy or a value has been written or applied.
\<close>

theorem push_sends_when_initialised:
  "cells (push s) = cells s \<and> passes (push s) = passes s
   \<and> hasLocal (vars (push s)) = hasLocal (vars s)
   \<and> (push s = s) = (\<not> hasLocal (vars s))
   \<and> (hasLocal (vars s) \<longrightarrow>
        push s = s\<lparr>vars := (vars s)\<lparr>sent := sent (vars s) @ [local (cells s)]\<rparr>\<rparr>)
   \<and> (let q = sexec rc es (createSubscription initial)
       in (\<not> truthy initial \<and> list_all (\<lambda>e. \<not> initialises e) es \<longrightarrow> sstep rc SPush q = q)
        \<and> (truthy initial \<or> list_ex assigns es \<longrightarrow>
             sstep rc SPush q
             = q\<lparr>world := (world q)\<lparr>vars := (vars (world q))
                    \<lparr>sent := sent (vars (world q)) @ [local (cells (world q))]\<rparr>\<rparr>\<rparr>))"
proof -
  define q where "q = sexec rc es (createSubscription initial)"
  have i: "hasLocal (vars (world (createSubscription initial))) = truthy initial"
    by (simp add: createSubscription_def quantum_init_def)
  have a: "cells (push s) = cells s \<and> passes (push s) = passes s
           \<and> hasLocal (vars (push s)) = hasLocal (vars s)"
    by (simp add: push_def)
  have b: "hasLocal (vars s) \<longrightarrow>
        push s = s\<lparr>vars := (vars s)\<lparr>sent := sent (vars s) @ [local (cells s)]\<rparr>\<rparr>"
    by (simp add: push_def)
  have c: "\<not> truthy initial \<and> list_all (\<lambda>e. \<not> initialises e) es \<longrightarrow> sstep rc SPush q = q"
  proof
    assume h: "\<not> truthy initial \<and> list_all (\<lambda>e. \<not> initialises e) es"
    then have "\<not> hasLocal (vars (world q))"
      unfolding q_def using hasLocal_sexec [OF sinv_create, of es rc initial] i by simp
    then show "sstep rc SPush q = q"
      by (rule push_uninitialised)
  qed
  have d: "truthy initial \<or> list_ex assigns es \<longrightarrow>
             sstep rc SPush q
             = q\<lparr>world := (world q)\<lparr>vars := (vars (world q))
                    \<lparr>sent := sent (vars (world q)) @ [local (cells (world q))]\<rparr>\<rparr>\<rparr>"
  proof
    assume "truthy initial \<or> list_ex assigns es"
    then have "hasLocal (vars (world q))"
      unfolding q_def using hasLocal_reached [OF sinv_create, of initial es rc] i by simp
    then show "sstep rc SPush q
             = q\<lparr>world := (world q)\<lparr>vars := (vars (world q))
                    \<lparr>sent := sent (vars (world q)) @ [local (cells (world q))]\<rparr>\<rparr>\<rparr>"
      by (rule push_initialised)
  qed
  show ?thesis
    using a b c d push_noop_iff [of s] unfolding Let_def q_def by blast
qed

text \<open>
  Claim C10 says that after a falsy initial value a \<open>push()\<close> with no intervening pull or
  write is a no-op. It is not when the accessor has been read under a listener and
  \<open>handler.sub\<close> delivered a value at once: with initial value 0 and a first value 3,
  \<open>hasLocal\<close> is set with no pull and no write, and \<open>push()\<close> sends 3.
\<close>

theorem subscribing_read_initialises:
  "\<not> truthy (Num 0)
   \<and> hasLocal (vars (world (sexec None [SRead [Num 3] (Some 1)] (createSubscription (Num 0)))))
   \<and> sent (vars (world (sexec None [SRead [Num 3] (Some 1), SPush] (createSubscription (Num 0)))))
       = [Num 3]"
  by (simp add: subscription_defs quantum_def count_def onCleanup_def subscribe_def)

text \<open>
  Claim C10, amended. \<open>hasLocal\<close> starts as the truthiness of \<open>options.initial\<close>. With a
  falsy initial value (0, false and the empty string are falsy) it stays unset as long as
  nothing is written and no remote value is applied, by \<open>pull()\<close> or by the live feed,
  which includes a value that \<open>handler.sub\<close> delivers at once when a read under a listener
  subscribes; a \<open>push()\<close> then changes nothing and sends nothing. With a truthy initial
  value a \<open>push()\<close> right after creation sends the initial value.
\<close>

theorem falsy_initial_is_not_pushed:
  "hasLocal (vars (world (createSubscription initial))) = truthy initial
   \<and> (\<not> truthy initial \<and> list_all (\<lambda>e. \<not> initialises e) es \<longrightarrow>
        (let q = sexec rc es (createSubscription initial)
         in \<not> hasLocal (vars (world q)) \<and> sstep rc SPush q = q))
   \<and> (truthy initial \<longrightarrow>
        sent (vars (world (sstep rc SPush (createSubscription initial)))) = [initial])
   \<and> \<not> truthy (Num 0) \<and> \<not> truthy (Bool False) \<and> \<not> truthy (Str [])"
proof -
  have a: "hasLocal (vars (world (createSubscription initial))) = truthy initial"
    by (simp add: createSubscription_def quantum_init_def)
  have b: "\<not> truthy initial \<and> list_all (\<lambda>e. \<not> initialises e) es \<longrightarrow>
        (let q = sexec rc es (createSubscription initial)
         in \<not> hasLocal (vars (world q)) \<and> sstep rc SPush q = q)"
  proof
    assume h: "\<not> truthy initial \<and> list_all (\<lambda>e. \<not> initialises e) es"
    then have "\<not> hasLocal (vars (world (sexec rc es (createSubscription initial))))"
      using hasLocal_sexec [OF sinv_create, of es rc initial] a by simp
    then show "let q = sexec rc es (createSubscription initial)
               in \<not> hasLocal (vars (world q)) \<and> sstep rc SPush q = q"
      by (simp add: Let_def push_uninitialised del: sstep.simps)
  qed
  have c: "truthy initial \<longrightarrow>
        sent (vars (world (sstep rc SPush (createSubscription initial)))) = [initial]"
    by (simp add: push_def in_world_def createSubscription_def quantum_init_def memo_def)
  show ?thesis
    using a b c by simp
qed

text \<open>
  Claim C7 at a concrete input: 5 has been written, then 9 arrives from the remote.
\<close>

theorem pull_sets_local_and_cache_witness:
  "settled (setter (Plain (Num 5)) (world (createSubscription Undefined)))
   \<and> cells (updateFromRemote None (Num 9) (setter (Plain (Num 5)) (world (createSubscription Undefined))))
       = \<lparr>local = Num 9, cache = Num 9, subscribed = False, detached = False\<rparr>
   \<and> passes (updateFromRemote None (Num 9) (setter (Plain (Num 5)) (world (createSubscription Undefined))))
       = [\<lparr>local = Num 9, cache = Num 9, subscribed = False, detached = False\<rparr>,
          \<lparr>local = Num 5, cache = Undefined, subscribed = False, detached = True\<rparr>]"
  using pull_sets_local_and_cache
          [where rc = None and remote = "Num 9"
             and s = "setter (Plain (Num 5)) (world (createSubscription Undefined))"]
  by (simp add: subscription_defs settled_def)

text \<open>
  Claim C8 at concrete inputs: a push right after creation with no initial value, one
  after a pull that has not resolved and a read outside a computation, and one after the
  feed delivered 3.
\<close>

theorem push_sends_when_initialised_witness:
  "\<not> hasLocal (vars (world (createSubscription Undefined)))
   \<and> push (world (createSubscription Undefined)) = world (createSubscription Undefined)
   \<and> \<not> truthy Undefined \<and> list_all (\<lambda>e. \<not> initialises e) [SPull Promised, SRead [] None]
   \<and> sstep None SPush (sexec None [SPull Promised, SRead [] None] (createSubscription Undefined))
       = sexec None [SPull Promised, SRead [] None] (createSubscription Undefined)
   \<and> list_ex assigns [SFeed (Num 3)]
   \<and> sent (vars (world (sstep None SPush (sexec None [SFeed (Num 3)] (createSubscription Undefined)))))
       = [Num 3]"
proof -
  let ?q = "sexec None [SFeed (Num 3)] (createSubscription Undefined)"
  have h: "\<not> hasLocal (vars (world (createSubscription Undefined)))"
    by (simp add: createSubscription_def quantum_init_def)
  have f: "\<not> truthy Undefined \<and> list_all (\<lambda>e. \<not> initialises e) [SPull Promised, SRead [] None]"
    by simp
  have g: "list_ex assigns [SFeed (Num 3)]"
    by simp
  have l: "local (cells (world ?q)) = Num 3"
    by (simp add: sexec_def in_world_def cells_ufr reconciled_def)
  have s: "sent (vars (world ?q)) = []"
    by (simp add: subscription_defs)
  note t1 = push_sends_when_initialised
        [where s = "world (createSubscription Undefined)" and rc = None
           and es = "[SPull Promised, SRead [] None]" and initial = Undefined, unfolded Let_def]
  note t2 = push_sends_when_initialised
        [where s = "world (createSubscription Undefined)" and rc = None
           and es = "[SFeed (Num 3)]" and initial = Undefined, unfolded Let_def]
  have a: "push (world (createSubscription Undefined)) = world (createSubscription Undefined)"
    using t1 h by blast
  have b: "sstep None SPush (sexec None [SPull Promised, SRead [] None] (createSubscription Undefined))
       = sexec None [SPull Promised, SRead [] None] (createSubscription Undefined)"
    using t1 f by blast
  have "sstep None SPush ?q
        = ?q\<lparr>world := (world ?q)\<lparr>vars := (vars (world ?q))
               \<lparr>sent := sent (vars (world ?q)) @ [local (cells (world ?q))]\<rparr>\<rparr>\<rparr>"
    using t2 g by blast
  then have c: "sent (vars (world (sstep None SPush ?q))) = [Num 3]"
    using l s by simp
  show ?thesis
    using h a f b g c by blast
qed

text \<open>
  Claim C10 at concrete inputs: initial values 0 and 7.
\<close>

theorem falsy_initial_is_not_pushed_witness:
  "\<not> truthy (Num 0)
   \<and> list_all (\<lambda>e. \<not> initialises e) [SRead [] (Some 1), SPull Promised, SCleanup 1, SMicrotask, SPush]
   \<and> \<not> hasLocal (vars (world (sexec None [SRead [] (Some 1), SPull Promised, SCleanup 1, SMicrotask, SPush]
                                  (createSubscription (Num 0)))))
   \<and> sent (vars (world (sstep None SPush
        (sexec None [SRead [] (Some 1), SPull Promised, SCleanup 1, SMicrotask, SPush]
           (createSubscription (Num 0)))))) = []
   \<and> truthy (Num 7)
   \<and> sent (vars (world (sstep None SPush (createSubscription (Num 7))))) = [Num 7]"
  using falsy_initial_is_not_pushed
          [where initial = "Num 0" and rc = None
             and es = "[SRead [] (Some 1), SPull Promised, SCleanup 1, SMicrotask, SPush]"]
        falsy_initial_is_not_pushed [where initial = "Num 7" and rc = None and es = "[]"]
  by (simp add: subscription_defs quantum_def count_def onCleanup_def cleanups_def uncount_def
        microtask_def uncounted_def subscribe_def unsubscribe_def)


end
